theory Spec2Isabelle
  imports Main "HOL-Library.Word"
begin

section \<open>Data model of dijkstra.go\<close>

text \<open>
  Go panics (an index out of range, \<open>make\<close> with a negative length) are values of
  \<open>error\<close>; a fallible operation returns \<open>error + 'a\<close> with \<open>Inl\<close> the panic.
\<close>

datatype error = IndexOutOfRange | NegativeLen

text \<open>\<open>type Rank uint16\<close>: arithmetic on ranks wraps modulo \<open>2 ^ 16\<close>.\<close>

type_synonym Rank = "16 word"

text \<open>\<open>const RankMax = math.MaxUint16 - 10\<close>\<close>

definition RankMax :: Rank where
  "RankMax = 65535 - 10"

text \<open>
  The \<open>Map\<close> interface: the four methods of the caller's terrain. Go's \<open>int\<close> is
  modelled as \<open>int\<close>: every coordinate the engine computes is a slice index plus or
  minus one, or a size minus an index, far from the 64-bit limits.
\<close>

record Map =
  SizeX :: int
  SizeY :: int
  IsPassable :: "int \<Rightarrow> int \<Rightarrow> bool"
  OOB :: "int \<Rightarrow> int \<Rightarrow> bool"

record WeightedPoint =
  X :: int
  Y :: int
  Val :: Rank

text \<open>
  The struct \<open>DijkstraMap\<close>. Its third field \<open>NeigbourFunc\<close> is a function over the
  struct itself, which a HOL record cannot hold; it is passed next to the record, as the
  parameter \<open>nf\<close> of every operation that calls it.
\<close>

record DijkstraMap =
  Points :: "Rank list list"
  M :: Map

type_synonym NeigbourFunc = "DijkstraMap \<Rightarrow> int \<Rightarrow> int \<Rightarrow> error + WeightedPoint list"

section \<open>Slice accesses\<close>

text \<open>\<open>d.Points[x][y]\<close> panics unless both indices are inside their slice.\<close>

definition in_range :: "Rank list list \<Rightarrow> int \<Rightarrow> int \<Rightarrow> bool" where
  "in_range ps x y \<longleftrightarrow>
     0 \<le> x \<and> x < int (length ps) \<and> 0 \<le> y \<and> y < int (length (ps ! nat x))"

definition load :: "DijkstraMap \<Rightarrow> int \<Rightarrow> int \<Rightarrow> error + Rank" where
  "load d x y =
     (if in_range (Points d) x y then Inr (Points d ! nat x ! nat y)
      else Inl IndexOutOfRange)"

definition store :: "DijkstraMap \<Rightarrow> int \<Rightarrow> int \<Rightarrow> Rank \<Rightarrow> error + DijkstraMap" where
  "store d x y v =
     (if in_range (Points d) x y
      then Inr (d\<lparr>Points := (Points d)[nat x := (Points d ! nat x)[nat y := v]]\<rparr>)
      else Inl IndexOutOfRange)"

text \<open>A \<open>for\<close> loop over a list whose body may panic: the first panic ends the loop.\<close>

fun forE :: "'a list \<Rightarrow> ('a \<Rightarrow> 's \<Rightarrow> error + 's) \<Rightarrow> 's \<Rightarrow> error + 's" where
  "forE [] body s = Inr s"
| "forE (a # as) body s =
     (case body a s of Inl e \<Rightarrow> Inl e | Inr s' \<Rightarrow> forE as body s')"

text \<open>A slice literal whose elements may panic, evaluated left to right.\<close>

fun mapE :: "('a \<Rightarrow> error + 'b) \<Rightarrow> 'a list \<Rightarrow> error + 'b list" where
  "mapE f [] = Inr []"
| "mapE f (a # as) =
     (case f a of Inl e \<Rightarrow> Inl e
      | Inr b \<Rightarrow> (case mapE f as of Inl e \<Rightarrow> Inl e | Inr bs \<Rightarrow> Inr (b # bs)))"

section \<open>Operations\<close>

text \<open>
  \<open>BlankDMap\<close>: \<open>make([][]Rank, m.SizeX())\<close>, then for every row
  \<open>make([]Rank, m.SizeY())\<close> filled with \<open>RankMax\<close>. \<open>make\<close> panics on a negative
  length; the inner \<open>make\<close> runs only when there is a row.
\<close>

definition BlankDMap :: "Map \<Rightarrow> error + DijkstraMap" where
  "BlankDMap m =
     (if SizeX m < 0 then Inl NegativeLen
      else if 0 < SizeX m \<and> SizeY m < 0 then Inl NegativeLen
      else Inr \<lparr>Points = replicate (nat (SizeX m)) (replicate (nat (SizeY m)) RankMax),
                M = m\<rparr>)"

definition GetValPoint :: "DijkstraMap \<Rightarrow> int \<Rightarrow> int \<Rightarrow> error + WeightedPoint" where
  "GetValPoint d x y =
     (if OOB (M d) x y then Inr \<lparr>X = x, Y = y, Val = RankMax\<rparr>
      else (case load d x y of Inl e \<Rightarrow> Inl e
            | Inr v \<Rightarrow> Inr \<lparr>X = x, Y = y, Val = v\<rparr>))"

definition ManhattanNeighbours :: NeigbourFunc where
  "ManhattanNeighbours d x y =
     mapE (\<lambda>(a, b). GetValPoint d a b)
       [(x + 1, y), (x - 1, y), (x, y - 1), (x, y + 1)]"

definition DiagonalNeighbours :: NeigbourFunc where
  "DiagonalNeighbours d x y =
     mapE (\<lambda>(a, b). GetValPoint d a b)
       [(x + 1, y), (x - 1, y), (x, y - 1), (x, y + 1),
        (x + 1, y + 1), (x + 1, y - 1), (x - 1, y + 1), (x - 1, y - 1)]"

text \<open>The scan of \<open>LowestNeighbour\<close>: \<open>lv\<close> and \<open>ret\<close> are its two loop variables.\<close>

fun lowest_scan :: "WeightedPoint list \<Rightarrow> Rank \<Rightarrow> WeightedPoint \<Rightarrow> WeightedPoint" where
  "lowest_scan [] lv ret = ret"
| "lowest_scan (val # vals) lv ret =
     (if Val val < lv then lowest_scan vals (Val val) val else lowest_scan vals lv ret)"

text \<open>\<open>vals[0]\<close> panics on an empty neighbour list.\<close>

definition LowestNeighbour :: "NeigbourFunc \<Rightarrow> DijkstraMap \<Rightarrow> int \<Rightarrow> int \<Rightarrow> error + WeightedPoint" where
  "LowestNeighbour nf d x y =
     (case nf d x y of Inl e \<Rightarrow> Inl e
      | Inr vals \<Rightarrow>
          (case vals of [] \<Rightarrow> Inl IndexOutOfRange
           | v0 # _ \<Rightarrow> Inr (lowest_scan vals RankMax v0)))"

text \<open>
  One relaxation of \<open>Calc\<close>'s inner loop, at the cell \<open>(x, y)\<close>: the block
  \<open>if d.M.IsPassable(x, y) { ... }\<close>. The state is the map and the flag
  \<open>mademutation\<close>.
\<close>

definition relax :: "NeigbourFunc \<Rightarrow> int \<Rightarrow> int \<Rightarrow> DijkstraMap \<times> bool \<Rightarrow> error + DijkstraMap \<times> bool" where
  "relax nf x y s =
     (case s of (d, mademutation) \<Rightarrow>
        if IsPassable (M d) x y then
          (case LowestNeighbour nf d x y of Inl e \<Rightarrow> Inl e
           | Inr wp \<Rightarrow>
               (let ln = Val wp in
                case load d x y of Inl e \<Rightarrow> Inl e
                | Inr cur \<Rightarrow>
                    if cur > ln + 1
                    then (case store d x y (ln + 1) of Inl e \<Rightarrow> Inl e
                          | Inr d' \<Rightarrow> Inr (d', True))
                    else Inr (d, mademutation)))
        else Inr (d, mademutation))"

text \<open>The body of the inner loop: the cell, then its point reflection.\<close>

definition sweep_cell :: "NeigbourFunc \<Rightarrow> nat \<Rightarrow> nat \<Rightarrow> DijkstraMap \<times> bool \<Rightarrow> error + DijkstraMap \<times> bool" where
  "sweep_cell nf x y s =
     (case relax nf (int x) (int y) s of Inl e \<Rightarrow> Inl e
      | Inr s' \<Rightarrow>
          relax nf ((SizeX (M (fst s')) - 1) - int x) ((SizeY (M (fst s')) - 1) - int y) s')"

text \<open>\<open>for y := range d.Points[x]\<close>\<close>

definition sweep_row :: "NeigbourFunc \<Rightarrow> nat \<Rightarrow> DijkstraMap \<times> bool \<Rightarrow> error + DijkstraMap \<times> bool" where
  "sweep_row nf x s = forE [0 ..< length (Points (fst s) ! x)] (sweep_cell nf x) s"

text \<open>One pass of the \<open>for mademutation\<close> loop: the flag is cleared, then every cell is visited.\<close>

definition sweep :: "NeigbourFunc \<Rightarrow> DijkstraMap \<Rightarrow> error + DijkstraMap \<times> bool" where
  "sweep nf d = forE [0 ..< length (Points d)] (sweep_row nf) (d, False)"

text \<open>
  The loop \<open>for mademutation { ... }\<close>. Nothing in its text bounds the number of passes,
  so it is a partial function: \<open>None\<close> is a loop that never ends.
\<close>

partial_function (option) Calc_loop :: "NeigbourFunc \<Rightarrow> DijkstraMap \<Rightarrow> (error + DijkstraMap) option" where
  "Calc_loop nf d =
     (case sweep nf d of Inl e \<Rightarrow> Some (Inl e)
      | Inr (d', mademutation) \<Rightarrow>
          if mademutation then Calc_loop nf d' else Some (Inr d'))"

declare Calc_loop.simps [code]

text \<open>The first loop of \<open>Calc\<close>: \<open>d.Points[x][y] = 0\<close> for every target, unchecked.\<close>

definition set_targets :: "DijkstraMap \<Rightarrow> (int \<times> int) list \<Rightarrow> error + DijkstraMap" where
  "set_targets d points = forE points (\<lambda>(x, y) d'. store d' x y 0) d"

definition Calc :: "NeigbourFunc \<Rightarrow> DijkstraMap \<Rightarrow> (int \<times> int) list \<Rightarrow> (error + DijkstraMap) option" where
  "Calc nf d points =
     (case set_targets d points of Inl e \<Rightarrow> Some (Inl e)
      | Inr d' \<Rightarrow> Calc_loop nf d')"

definition Recalc :: "NeigbourFunc \<Rightarrow> DijkstraMap \<Rightarrow> (int \<times> int) list \<Rightarrow> (error + DijkstraMap) option" where
  "Recalc nf d points =
     Calc nf (d\<lparr>Points := map (map (\<lambda>_. RankMax)) (Points d)\<rparr>) points"

section \<open>Rendering\<close>

text \<open>The verb \<open>%d\<close> on an unsigned value: its decimal digits, most significant first.\<close>

fun decimal :: "nat \<Rightarrow> string" where
  "decimal n =
     (if n < 10 then [''0123456789'' ! n]
      else decimal (n div 10) @ [''0123456789'' ! (n mod 10)])"

declare decimal.simps [simp del]

text \<open>\<open>fmt.Sprintf("%6d", v)\<close>: the decimal digits, padded with spaces on the left to width 6.\<close>

definition Sprintf_6d :: "Rank \<Rightarrow> string" where
  "Sprintf_6d v = (let s = decimal (unat v) in replicate (6 - length s) CHR '' '' @ s)"

text \<open>
  \<open>String\<close>: the buffer receives, for every row, every rank formatted and then \<open>", "\<close>;
  after the row, a newline.
\<close>

definition String :: "DijkstraMap \<Rightarrow> string" where
  "String d =
     foldl (\<lambda>buf row. foldl (\<lambda>b v. b @ Sprintf_6d v @ '', '') buf row @ [CHR 0x0A])
       [] (Points d)"

text \<open>
  Padding as the spec words it for the rendering, "right-padded to a fixed width": the
  text first, then spaces up to the width.
\<close>

definition right_padded :: "nat \<Rightarrow> string \<Rightarrow> string" where
  "right_padded w s = s @ replicate (w - length s) CHR '' ''"

section \<open>Notions used by the properties\<close>

text \<open>The cells of the grid, by its dimensions.\<close>

definition inb :: "Map \<Rightarrow> int \<Rightarrow> int \<Rightarrow> bool" where
  "inb m x y \<longleftrightarrow> 0 \<le> x \<and> x < SizeX m \<and> 0 \<le> y \<and> y < SizeY m"

text \<open>The grid contract: \<open>OOB\<close> agrees with the dimensions.\<close>

definition grid_contract :: "Map \<Rightarrow> bool" where
  "grid_contract m \<longleftrightarrow> (\<forall>x y. OOB m x y \<longleftrightarrow> \<not> inb m x y)"

text \<open>The rank storage has the dimensions of the grid, as \<open>BlankDMap\<close> allocates it.\<close>

definition shaped :: "DijkstraMap \<Rightarrow> bool" where
  "shaped d \<longleftrightarrow>
     length (Points d) = nat (SizeX (M d)) \<and>
     (\<forall>row \<in> set (Points d). length row = nat (SizeY (M d)))"

definition well_formed :: "DijkstraMap \<Rightarrow> bool" where
  "well_formed d \<longleftrightarrow> shaped d \<and> grid_contract (M d)"

definition targets_inb :: "Map \<Rightarrow> (int \<times> int) list \<Rightarrow> bool" where
  "targets_inb m points \<longleftrightarrow> (\<forall>(x, y) \<in> set points. inb m x y)"

text \<open>Every stored rank is at most \<open>RankMax\<close>.\<close>

definition bounded :: "DijkstraMap \<Rightarrow> bool" where
  "bounded d \<longleftrightarrow> (\<forall>row \<in> set (Points d). \<forall>v \<in> set row. v \<le> RankMax)"

text \<open>The sum of all stored ranks: what a mutating pass decreases.\<close>

definition total_rank :: "DijkstraMap \<Rightarrow> nat" where
  "total_rank d = sum_list (map (\<lambda>row. sum_list (map unat row)) (Points d))"

text \<open>The offsets of the two topologies, in the order of the source.\<close>

definition manhattan_offsets :: "(int \<times> int) list" where
  "manhattan_offsets = [(1, 0), (-1, 0), (0, -1), (0, 1)]"

definition diagonal_offsets :: "(int \<times> int) list" where
  "diagonal_offsets =
     [(1, 0), (-1, 0), (0, -1), (0, 1), (1, 1), (1, -1), (-1, 1), (-1, -1)]"

text \<open>A neighbour function that samples \<open>GetValPoint\<close> at fixed offsets.\<close>

definition samples :: "(int \<times> int) list \<Rightarrow> NeigbourFunc" where
  "samples offs d x y = mapE (\<lambda>(dx, dy). GetValPoint d (x + dx) (y + dy)) offs"

definition topology :: "NeigbourFunc \<Rightarrow> (int \<times> int) list \<Rightarrow> bool" where
  "topology nf offs \<longleftrightarrow>
     nf = ManhattanNeighbours \<and> offs = manhattan_offsets \<or>
     nf = DiagonalNeighbours \<and> offs = diagonal_offsets"

text \<open>
  \<open>hops m offs points n (x, y)\<close>: some path of \<open>n\<close> unit hops of the topology leads from
  the cell \<open>(x, y)\<close> to a target; every cell the path leaves is an in-bounds passable
  cell, and its last cell is a target, passable or not.
\<close>

inductive hops :: "Map \<Rightarrow> (int \<times> int) list \<Rightarrow> (int \<times> int) list \<Rightarrow> nat \<Rightarrow> int \<times> int \<Rightarrow> bool"
  for m :: Map and offs :: "(int \<times> int) list" and points :: "(int \<times> int) list" where
  hops_target: "(x, y) \<in> set points \<Longrightarrow> hops m offs points 0 (x, y)"
| hops_step: "inb m x y \<Longrightarrow> IsPassable m x y \<Longrightarrow> (dx, dy) \<in> set offs \<Longrightarrow>
     hops m offs points n (x + dx, y + dy) \<Longrightarrow> hops m offs points (Suc n) (x, y)"

text \<open>The number of hops to the nearest target, for a cell that has a path.\<close>

definition hop_distance :: "Map \<Rightarrow> (int \<times> int) list \<Rightarrow> (int \<times> int) list \<Rightarrow> int \<times> int \<Rightarrow> nat" where
  "hop_distance m offs points c = (LEAST n. hops m offs points n c)"

definition reachable :: "Map \<Rightarrow> (int \<times> int) list \<Rightarrow> (int \<times> int) list \<Rightarrow> int \<times> int \<Rightarrow> bool" where
  "reachable m offs points c \<longleftrightarrow> (\<exists>n. hops m offs points n c)"

text \<open>
  Example grids: every cell passable, \<open>OOB\<close> by the dimensions; and the 3 by 3 map
  that \<open>BlankDMap\<close> makes for such a grid.
\<close>

definition open_grid :: "int \<Rightarrow> int \<Rightarrow> Map" where
  "open_grid w h =
     \<lparr>SizeX = w, SizeY = h, IsPassable = (\<lambda>x y. True),
      OOB = (\<lambda>x y. x < 0 \<or> w \<le> x \<or> y < 0 \<or> h \<le> y)\<rparr>"

definition blank_3x3 :: DijkstraMap where
  "blank_3x3 =
     \<lparr>Points = [[RankMax, RankMax, RankMax], [RankMax, RankMax, RankMax],
                [RankMax, RankMax, RankMax]],
      M = open_grid 3 3\<rparr>"

text \<open>A grid of 1 by 3 cells whose middle cell is impassable, and its blank map.\<close>

definition blocked_1x3 :: Map where
  "blocked_1x3 =
     \<lparr>SizeX = 1, SizeY = 3, IsPassable = (\<lambda>x y. y \<noteq> 1),
      OOB = (\<lambda>x y. x < 0 \<or> 1 \<le> x \<or> y < 0 \<or> 3 \<le> y)\<rparr>"

definition blank_1x3 :: DijkstraMap where
  "blank_1x3 = \<lparr>Points = [[RankMax, RankMax, RankMax]], M = blocked_1x3\<rparr>"

text \<open>A corridor of 65527 cells, one cell wide, and its blank map.\<close>

definition corridor :: Map where
  "corridor = open_grid 65527 1"

definition blank_corridor :: DijkstraMap where
  "blank_corridor = \<lparr>Points = replicate 65527 [RankMax], M = corridor\<rparr>"

text \<open>
  Every rank below \<open>RankMax\<close> is the length of some path from its cell to a target.
\<close>

definition path_sound :: "(int \<times> int) list \<Rightarrow> (int \<times> int) list \<Rightarrow> DijkstraMap \<Rightarrow> bool" where
  "path_sound offs points d \<longleftrightarrow>
     (\<forall>x y v. load d x y = Inr v \<and> v < RankMax \<longrightarrow> hops (M d) offs points (unat v) (x, y))"

text \<open>Every target holds rank 0.\<close>

definition zero_targets :: "(int \<times> int) list \<Rightarrow> DijkstraMap \<Rightarrow> bool" where
  "zero_targets points d \<longleftrightarrow> (\<forall>(x, y) \<in> set points. load d x y = Inr 0)"

text \<open>A pass that changes nothing: the state the loop of \<open>Calc\<close> stops in.\<close>

definition converged :: "NeigbourFunc \<Rightarrow> DijkstraMap \<Rightarrow> bool" where
  "converged nf d \<longleftrightarrow> sweep nf d = Inr (d, False)"

section \<open>Proofs\<close>

subsection \<open>Iteration with panics\<close>

lemma forE_invariant:
  assumes "forE as body s = Inr s'" and "I s"
    and "\<And>a t t'. a \<in> set as \<Longrightarrow> I t \<Longrightarrow> body a t = Inr t' \<Longrightarrow> I t'"
  shows "I s'"
  using assms
proof (induction as arbitrary: s)
  case Nil
  then show ?case by simp
next
  case (Cons a as)
  from Cons.prems(1) obtain t where t: "body a s = Inr t" and rest: "forE as body t = Inr s'"
    by (auto split: sum.splits)
  have "I t"
    by (rule Cons.prems(3) [of a s t]) (simp_all add: Cons.prems(2) t)
  show ?case
  proof (rule Cons.IH [OF rest \<open>I t\<close>])
    fix b u u'
    assume "b \<in> set as" "I u" "body b u = Inr u'"
    then show "I u'" using Cons.prems(3) [of b u u'] by simp
  qed
qed

lemma forE_total:
  assumes "I s"
    and "\<And>a t. a \<in> set as \<Longrightarrow> I t \<Longrightarrow> \<exists>t'. body a t = Inr t' \<and> I t'"
  shows "\<exists>s'. forE as body s = Inr s' \<and> I s'"
  using assms
proof (induction as arbitrary: s)
  case Nil
  then show ?case by simp
next
  case (Cons a as)
  from Cons.prems(2) [of a s] Cons.prems(1) obtain t where t: "body a s = Inr t" "I t"
    by auto
  have "\<exists>s'. forE as body t = Inr s' \<and> I s'"
  proof (rule Cons.IH [OF t(2)])
    fix b u
    assume "b \<in> set as" "I u"
    then show "\<exists>u'. body b u = Inr u' \<and> I u'" using Cons.prems(2) [of b u] by simp
  qed
  then show ?case using t by simp
qed

text \<open>A loop whose body can only raise the flag: a clear flag at the end means nothing changed.\<close>

lemma forE_stable:
  assumes "forE as body s = Inr s'" and "\<not> snd s'"
    and "\<And>a t t'. body a t = Inr t' \<Longrightarrow> \<not> snd t' \<Longrightarrow> t' = t"
  shows "s' = s \<and> (\<forall>a \<in> set as. body a s = Inr s)"
  using assms
proof (induction as arbitrary: s)
  case Nil
  then show ?case by simp
next
  case (Cons a as)
  from Cons.prems(1) obtain t where t: "body a s = Inr t" and rest: "forE as body t = Inr s'"
    by (auto split: sum.splits)
  from Cons.IH [OF rest Cons.prems(2,3)] have st: "s' = t" and all: "\<forall>a \<in> set as. body a t = Inr t"
    by auto
  have "t = s" using Cons.prems(3) [OF t] Cons.prems(2) st by simp
  then show ?case using st all t by simp
qed

subsection \<open>The relaxation step\<close>

lemma relax_cases:
  assumes "relax nf x y (d, mut) = Inr (d', mut')"
  shows "(d' = d \<and> mut' = mut) \<or>
         (mut' \<and> IsPassable (M d) x y \<and> in_range (Points d) x y \<and>
          (\<exists>wp. LowestNeighbour nf d x y = Inr wp \<and> Val wp + 1 < Points d ! nat x ! nat y \<and>
             d' = d\<lparr>Points := (Points d)[nat x := (Points d ! nat x)[nat y := Val wp + 1]]\<rparr>))"
  using assms
  by (auto simp: relax_def load_def store_def Let_def split: if_splits sum.splits)

text \<open>No write changes the length of a slice: the indices of \<open>range\<close> stay valid.\<close>

lemma relax_lengths:
  assumes "relax nf x y (d, mut) = Inr (d', mut')"
  shows "map length (Points d') = map length (Points d)"
proof -
  have "map length (ps[i := (ps ! i)[j := v]]) = map length ps" for ps :: "Rank list list" and i j v
    by (cases "i < length ps") (simp_all add: map_update list_update_same_conv list_update_beyond)
  with relax_cases [OF assms] show ?thesis by auto
qed

lemma relax_unchanged:
  "relax nf x y s = Inr s' \<Longrightarrow> \<not> snd s' \<Longrightarrow> s' = s"
  by (cases s; cases s') (auto dest!: relax_cases)

lemma sweep_cell_unchanged:
  "sweep_cell nf x y s = Inr s' \<Longrightarrow> \<not> snd s' \<Longrightarrow> s' = s"
  unfolding sweep_cell_def
  by (auto split: sum.splits dest: relax_unchanged)

lemma sweep_row_unchanged:
  "sweep_row nf x s = Inr s' \<Longrightarrow> \<not> snd s' \<Longrightarrow> s' = s"
  unfolding sweep_row_def
  by (drule forE_stable [where body = "sweep_cell nf x"]) (auto dest: sweep_cell_unchanged)

text \<open>Whatever every relaxation preserves, a whole pass preserves.\<close>

lemma sweep_cell_invariant:
  assumes "sweep_cell nf x y s = Inr s'" and "I s"
    and "\<And>a b t t'. I t \<Longrightarrow> relax nf a b t = Inr t' \<Longrightarrow> I t'"
  shows "I s'"
proof -
  from assms(1) obtain t where t: "relax nf (int x) (int y) s = Inr t"
    and t': "relax nf ((SizeX (M (fst t)) - 1) - int x) ((SizeY (M (fst t)) - 1) - int y) t = Inr s'"
    unfolding sweep_cell_def by (auto split: sum.splits)
  from assms(3) [OF assms(2) t] have "I t" .
  from assms(3) [OF this t'] show ?thesis .
qed

lemma sweep_row_invariant:
  assumes "sweep_row nf x s = Inr s'" and "I s"
    and "\<And>a b t t'. I t \<Longrightarrow> relax nf a b t = Inr t' \<Longrightarrow> I t'"
  shows "I s'"
proof -
  have "forE [0 ..< length (Points (fst s) ! x)] (sweep_cell nf x) s = Inr s'"
    using assms(1) by (simp add: sweep_row_def)
  then show ?thesis
  proof (rule forE_invariant [where I = I])
    show "I s" by (rule assms(2))
  next
    fix a t t'
    assume t: "I t" and step: "sweep_cell nf x a t = Inr t'"
    show "I t'" by (rule sweep_cell_invariant [where I = I, OF step t assms(3)])
  qed
qed

lemma sweep_invariant:
  assumes "sweep nf d = Inr s'" and "I (d, False)"
    and "\<And>a b t t'. I t \<Longrightarrow> relax nf a b t = Inr t' \<Longrightarrow> I t'"
  shows "I s'"
proof -
  have "forE [0 ..< length (Points d)] (sweep_row nf) (d, False) = Inr s'"
    using assms(1) by (simp add: sweep_def)
  then show ?thesis
  proof (rule forE_invariant [where I = I])
    show "I (d, False)" by (rule assms(2))
  next
    fix a t t'
    assume t: "I t" and step: "sweep_row nf a t = Inr t'"
    show "I t'" by (rule sweep_row_invariant [where I = I, OF step t assms(3)])
  qed
qed

subsection \<open>The state a pass without mutation leaves\<close>

lemma sweep_no_mutation:
  assumes "sweep nf d = Inr (d', False)"
  shows "d' = d"
    and "\<And>x y. x < length (Points d) \<Longrightarrow> y < length (Points d ! x) \<Longrightarrow>
           relax nf (int x) (int y) (d, False) = Inr (d, False)"
proof -
  have run: "forE [0 ..< length (Points d)] (sweep_row nf) (d, False) = Inr (d', False)"
    using assms by (simp add: sweep_def)
  have rows: "(d', False) = (d, False) \<and>
      (\<forall>x \<in> set [0 ..< length (Points d)]. sweep_row nf x (d, False) = Inr (d, False))"
    by (rule forE_stable [OF run]) (auto dest: sweep_row_unchanged)
  then show "d' = d" by simp
  fix x y
  assume x: "x < length (Points d)" and y: "y < length (Points d ! x)"
  from rows x have "forE [0 ..< length (Points d ! x)] (sweep_cell nf x) (d, False) = Inr (d, False)"
    by (simp add: sweep_row_def)
  then have "(d, False) = (d, False) \<and>
      (\<forall>b \<in> set [0 ..< length (Points d ! x)]. sweep_cell nf x b (d, False) = Inr (d, False))"
    by (rule forE_stable) (auto dest: sweep_cell_unchanged)
  with y have cell: "sweep_cell nf x y (d, False) = Inr (d, False)"
    by simp
  then obtain t where t: "relax nf (int x) (int y) (d, False) = Inr t"
    and t': "relax nf ((SizeX (M (fst t)) - 1) - int x) ((SizeY (M (fst t)) - 1) - int y) t = Inr (d, False)"
    unfolding sweep_cell_def by (auto split: sum.splits)
  from relax_unchanged [OF t'] have "t = (d, False)" by simp
  with t show "relax nf (int x) (int y) (d, False) = Inr (d, False)" by simp
qed

subsection \<open>Ranks only decrease\<close>

lemma sum_list_update_less:
  fixes xs :: "nat list"
  assumes "k < length xs" and "v < xs ! k"
  shows "sum_list (xs[k := v]) < sum_list xs"
proof -
  have "xs ! k \<le> sum_list xs"
    using assms(1) by (simp add: member_le_sum_list)
  then show ?thesis
    using assms by (simp add: sum_list_update)
qed

lemma total_rank_store:
  assumes "in_range (Points d) x y" and "v < Points d ! nat x ! nat y"
  shows "total_rank (d\<lparr>Points := (Points d)[nat x := (Points d ! nat x)[nat y := v]]\<rparr>) < total_rank d"
proof -
  let ?ps = "Points d" and ?i = "nat x" and ?j = "nat y"
  let ?f = "\<lambda>row. sum_list (map unat row)"
  have i: "?i < length ?ps" and j: "?j < length (?ps ! ?i)"
    using assms(1) by (auto simp: in_range_def)
  have "sum_list ((map unat (?ps ! ?i))[?j := unat v]) < sum_list (map unat (?ps ! ?i))"
    by (rule sum_list_update_less) (use j assms(2) in \<open>simp_all add: unat_mono\<close>)
  then have row: "?f ((?ps ! ?i)[?j := v]) < ?f (?ps ! ?i)"
    by (simp add: map_update)
  have "sum_list ((map ?f ?ps)[?i := ?f ((?ps ! ?i)[?j := v])]) < sum_list (map ?f ?ps)"
    by (rule sum_list_update_less) (use i row in simp_all)
  then show ?thesis
    by (simp add: total_rank_def map_update)
qed

lemma relax_total_rank:
  assumes "relax nf x y (d, mut) = Inr (d', mut')"
  shows "total_rank d' \<le> total_rank d \<and> (mut' \<and> \<not> mut \<longrightarrow> total_rank d' < total_rank d)"
  using relax_cases [OF assms] total_rank_store [of d x y]
  by (auto simp: less_imp_le)

lemma sweep_total_rank:
  assumes "sweep nf d = Inr (d', mut)"
  shows "total_rank d' \<le> total_rank d \<and> (mut \<longrightarrow> total_rank d' < total_rank d)"
proof -
  let ?I = "\<lambda>s. total_rank (fst s) \<le> total_rank d \<and> (snd s \<longrightarrow> total_rank (fst s) < total_rank d)"
  have "?I (d', mut)"
  proof (rule sweep_invariant [where I = ?I, OF assms])
    show "?I (d, False)" by simp
  next
    fix a b t t'
    assume t: "?I t" and step: "relax nf a b t = Inr t'"
    from step have "relax nf a b (fst t, snd t) = Inr (fst t', snd t')" by simp
    from relax_total_rank [OF this] t show "?I t'" by auto
  qed
  then show ?thesis by simp
qed

subsection \<open>The loop of \<open>Calc\<close> ends\<close>

lemma Calc_loop_terminates: "\<exists>r. Calc_loop nf d = Some r"
proof (induction d rule: measure_induct_rule [where f = total_rank])
  case (less d)
  show ?case
  proof (cases "sweep nf d")
    case (Inl e)
    then show ?thesis by (subst Calc_loop.simps) simp
  next
    case (Inr s)
    obtain d' mut where s: "s = (d', mut)" by (cases s)
    show ?thesis
    proof (cases mut)
      case True
      with Inr s sweep_total_rank [of nf d d' mut] have "total_rank d' < total_rank d" by simp
      from less.IH [OF this] show ?thesis
        using Inr s True by (subst Calc_loop.simps) simp
    next
      case False
      then show ?thesis using Inr s by (subst Calc_loop.simps) simp
    qed
  qed
qed

text \<open>
  What the loop returns: from a state with an invariant that every pass keeps and under
  which no pass panics, the loop returns a state with the invariant that a further pass
  leaves alone.
\<close>

lemma Calc_loop_returns:
  assumes "I d"
    and "\<And>t. I t \<Longrightarrow> \<exists>t' mut. sweep nf t = Inr (t', mut) \<and> I t'"
  shows "\<exists>r. Calc_loop nf d = Some (Inr r) \<and> I r \<and> converged nf r"
  using assms(1)
proof (induction d rule: measure_induct_rule [where f = total_rank])
  case (less d)
  from assms(2) [OF less.prems] obtain d' mut where sw: "sweep nf d = Inr (d', mut)" and d': "I d'"
    by blast
  show ?case
  proof (cases mut)
    case True
    with sw sweep_total_rank [of nf d d' mut] have "total_rank d' < total_rank d" by simp
    from less.IH [OF this d'] show ?thesis
      using sw True by (subst Calc_loop.simps) simp
  next
    case False
    with sw sweep_no_mutation(1) [of nf d d'] have "d' = d" by simp
    then show ?thesis
      using sw False less.prems by (subst Calc_loop.simps) (simp add: converged_def)
  qed
qed

text \<open>The same without totality: whatever the loop returns has every invariant of the relaxation.\<close>

lemma Calc_loop_result:
  assumes "Calc_loop nf d = Some (Inr r)" and "I d"
    and "\<And>a b t mut t' mut'. I t \<Longrightarrow> relax nf a b (t, mut) = Inr (t', mut') \<Longrightarrow> I t'"
  shows "I r \<and> converged nf r"
  using assms(1,2)
proof (induction d rule: measure_induct_rule [where f = total_rank])
  case (less d)
  from less.prems(1) obtain d' mut where sw: "sweep nf d = Inr (d', mut)"
    by (subst (asm) Calc_loop.simps) (auto split: sum.splits)
  have "(\<lambda>s. I (fst s)) (d', mut)"
  proof (rule sweep_invariant [where I = "\<lambda>s. I (fst s)", OF sw])
    show "I (fst (d, False))" using less.prems(2) by simp
  next
    fix a b t t'
    assume "I (fst t)" and "relax nf a b t = Inr t'"
    then show "I (fst t')" using assms(3) [of "fst t" a b "snd t" "fst t'" "snd t'"] by simp
  qed
  then have d': "I d'" by simp
  show ?case
  proof (cases mut)
    case True
    with sw sweep_total_rank [of nf d d' mut] have lt: "total_rank d' < total_rank d" by simp
    have "Calc_loop nf d' = Some (Inr r)"
      using less.prems(1) sw True by (subst (asm) Calc_loop.simps) simp
    from less.IH [OF lt this d'] show ?thesis .
  next
    case False
    with sw sweep_no_mutation(1) [of nf d d'] have "d' = d" by simp
    moreover have "r = d'"
      using less.prems(1) sw False by (subst (asm) Calc_loop.simps) simp
    ultimately show ?thesis
      using sw False less.prems(2) by (simp add: converged_def)
  qed
qed

subsection \<open>Reading and writing cells\<close>

lemma in_range_shaped: "shaped d \<Longrightarrow> in_range (Points d) x y \<longleftrightarrow> inb (M d) x y"
proof -
  assume sh: "shaped d"
  have "length (Points d ! nat x) = nat (SizeY (M d))" if "0 \<le> x" "x < int (length (Points d))"
  proof -
    from that have "Points d ! nat x \<in> set (Points d)" by (intro nth_mem) simp
    with sh show ?thesis by (simp add: shaped_def)
  qed
  then show ?thesis
    using sh by (auto simp: shaped_def in_range_def inb_def split: if_splits)
qed

lemma store_Inr:
  assumes "store d x y v = Inr d'"
  shows "in_range (Points d) x y"
    and "d' = d\<lparr>Points := (Points d)[nat x := (Points d ! nat x)[nat y := v]]\<rparr>"
  using assms by (auto simp: store_def split: if_splits)

lemma in_range_update:
  "in_range (ps[i := (ps ! i)[j := v]]) a b \<longleftrightarrow> in_range ps a b"
  by (cases "i < length ps"; cases "nat a = i") (auto simp: in_range_def)

lemma nth_update2:
  assumes "i < length ps" and "j < length (ps ! i)"
  shows "ps[i := (ps ! i)[j := v]] ! a ! b = (if a = i \<and> b = j then v else ps ! a ! b)"
  using assms by (cases "a = i"; cases "b = j") simp_all

lemma shaped_update:
  assumes "shaped d"
  shows "shaped (d\<lparr>Points := (Points d)[i := (Points d ! i)[j := v]]\<rparr>)"
proof -
  have "row \<in> set ((Points d)[i := (Points d ! i)[j := v]]) \<Longrightarrow> length row = nat (SizeY (M d))" for row
  proof -
    assume "row \<in> set ((Points d)[i := (Points d ! i)[j := v]])"
    then have "row = (Points d ! i)[j := v] \<and> i < length (Points d) \<or> row \<in> set (Points d)"
      by (cases "i < length (Points d)") (auto dest: set_update_subset_insert [THEN subsetD] simp: list_update_beyond)
    then show ?thesis using assms by (auto simp: shaped_def)
  qed
  then show ?thesis using assms by (simp add: shaped_def)
qed

lemma bounded_update:
  assumes "bounded d" and "v \<le> RankMax"
  shows "bounded (d\<lparr>Points := (Points d)[i := (Points d ! i)[j := v]]\<rparr>)"
proof -
  have "w \<le> RankMax" if row: "row \<in> set ((Points d)[i := (Points d ! i)[j := v]])" and w: "w \<in> set row" for row w
  proof -
    from row have "row = (Points d ! i)[j := v] \<and> i < length (Points d) \<or> row \<in> set (Points d)"
      by (cases "i < length (Points d)") (auto dest: set_update_subset_insert [THEN subsetD] simp: list_update_beyond)
    then show ?thesis
    proof
      assume r: "row = (Points d ! i)[j := v] \<and> i < length (Points d)"
      with w have "w = v \<or> w \<in> set (Points d ! i)"
        by (auto dest: set_update_subset_insert [THEN subsetD])
      then show ?thesis using assms r by (auto simp: bounded_def)
    next
      assume "row \<in> set (Points d)"
      then show ?thesis using assms(1) w by (auto simp: bounded_def)
    qed
  qed
  then show ?thesis by (auto simp: bounded_def)
qed

lemma bounded_cell:
  "bounded d \<Longrightarrow> in_range (Points d) x y \<Longrightarrow> Points d ! nat x ! nat y \<le> RankMax"
proof -
  assume b: "bounded d" and r: "in_range (Points d) x y"
  from r have "Points d ! nat x \<in> set (Points d)" "Points d ! nat x ! nat y \<in> set (Points d ! nat x)"
    by (auto simp: in_range_def intro!: nth_mem)
  with b show ?thesis by (auto simp: bounded_def)
qed

lemma load_after_update:
  assumes "in_range (Points d) x y"
  shows "load (d\<lparr>Points := (Points d)[nat x := (Points d ! nat x)[nat y := v]]\<rparr>) a b =
         (if a = x \<and> b = y then Inr v else load d a b)"
proof (cases "in_range (Points d) a b")
  case True
  have eq: "nat a = nat x \<and> nat b = nat y \<longleftrightarrow> a = x \<and> b = y"
    using True assms by (auto simp: in_range_def)
  have i: "nat x < length (Points d)" and j: "nat y < length (Points d ! nat x)"
    using assms by (auto simp: in_range_def)
  show ?thesis
    using True eq by (simp add: load_def in_range_update nth_update2 [OF i j])
next
  case False
  then show ?thesis using assms by (auto simp: load_def in_range_update)
qed

lemma store_same:
  assumes "load d x y = Inr v"
  shows "store d x y v = Inr d"
proof -
  from assms have r: "in_range (Points d) x y" and v: "Points d ! nat x ! nat y = v"
    by (auto simp: load_def split: if_splits)
  have "(Points d)[nat x := (Points d ! nat x)[nat y := v]] = Points d"
    using v by (metis list_update_id)
  then show ?thesis using r by (simp add: store_def)
qed

subsection \<open>Neighbour samples\<close>

lemma GetValPoint_Inr:
  assumes "GetValPoint d a b = Inr w"
  shows "X w = a \<and> Y w = b \<and>
         (OOB (M d) a b \<and> Val w = RankMax \<or>
          \<not> OOB (M d) a b \<and> in_range (Points d) a b \<and> Val w = Points d ! nat a ! nat b)"
  using assms by (auto simp: GetValPoint_def load_def split: if_splits)

lemma GetValPoint_total:
  assumes "well_formed d"
  shows "\<exists>w. GetValPoint d a b = Inr w"
  using assms
  by (auto simp: GetValPoint_def load_def well_formed_def grid_contract_def in_range_shaped)

lemma GetValPoint_bounded:
  "bounded d \<Longrightarrow> GetValPoint d a b = Inr w \<Longrightarrow> Val w \<le> RankMax"
  by (auto dest!: GetValPoint_Inr simp: bounded_cell)

lemma mapE_Inr:
  "mapE f as = Inr bs \<Longrightarrow> list_all2 (\<lambda>a b. f a = Inr b) as bs"
  by (induction as arbitrary: bs) (auto split: sum.splits)

lemma mapE_total:
  "(\<And>a. a \<in> set as \<Longrightarrow> \<exists>b. f a = Inr b) \<Longrightarrow> \<exists>bs. mapE f as = Inr bs"
  by (induction as) (fastforce split: sum.splits)+

lemma mapE_offsets:
  "mapE (\<lambda>(dx, dy). f (x + dx) (y + dy)) offs =
   mapE (\<lambda>(a, b). f a b) (map (\<lambda>(dx, dy). (x + dx, y + dy)) offs)"
  by (induction offs) (auto split: sum.splits)

lemma samples_manhattan: "samples manhattan_offsets = ManhattanNeighbours"
  by (simp add: fun_eq_iff samples_def ManhattanNeighbours_def manhattan_offsets_def mapE_offsets
      del: mapE.simps)

lemma samples_diagonal: "samples diagonal_offsets = DiagonalNeighbours"
  by (simp add: fun_eq_iff samples_def DiagonalNeighbours_def diagonal_offsets_def mapE_offsets
      del: mapE.simps)

lemma topology_samples:
  assumes "topology nf offs"
  shows "nf = samples offs" and "offs \<noteq> []"
proof -
  show "nf = samples offs"
    using assms by (auto simp: topology_def samples_manhattan samples_diagonal)
  show "offs \<noteq> []"
    using assms by (auto simp: topology_def manhattan_offsets_def diagonal_offsets_def)
qed

lemma LowestNeighbour_Inr:
  assumes "LowestNeighbour nf d x y = Inr wp"
  shows "\<exists>vals. nf d x y = Inr vals \<and> vals \<noteq> [] \<and> wp = lowest_scan vals RankMax (hd vals)"
  using assms
  by (auto simp: LowestNeighbour_def split: sum.splits list.splits simp del: lowest_scan.simps)

lemma lowest_scan_cases:
  "(lowest_scan vals lv ret = ret \<and> (\<forall>v \<in> set vals. lv \<le> Val v)) \<or>
   (lowest_scan vals lv ret \<in> set vals \<and> Val (lowest_scan vals lv ret) < lv \<and>
    (\<forall>v \<in> set vals. Val (lowest_scan vals lv ret) \<le> Val v))"
proof (induction vals arbitrary: lv ret)
  case Nil
  then show ?case by simp
next
  case (Cons val vals)
  show ?case
  proof (cases "Val val < lv")
    case True
    from Cons.IH [of "Val val" val] True show ?thesis by auto
  next
    case False
    from Cons.IH [of lv ret] False show ?thesis by auto
  qed
qed

text \<open>The neighbour that \<open>LowestNeighbour\<close> returns is one of the samples.\<close>

lemma LowestNeighbour_sample:
  assumes "topology nf offs" and "LowestNeighbour nf d x y = Inr wp"
  shows "\<exists>(dx, dy) \<in> set offs. GetValPoint d (x + dx) (y + dy) = Inr wp"
proof -
  from LowestNeighbour_Inr [OF assms(2)] topology_samples(1) [OF assms(1)]
  obtain vals where vals: "samples offs d x y = Inr vals" and ne: "vals \<noteq> []"
    and wp: "wp = lowest_scan vals RankMax (hd vals)"
    by auto
  have "wp \<in> set vals"
    using lowest_scan_cases [of vals RankMax "hd vals"] ne wp by auto
  moreover have "list_all2 (\<lambda>a b. (case a of (dx, dy) \<Rightarrow> GetValPoint d (x + dx) (y + dy)) = Inr b) offs vals"
    using vals unfolding samples_def by (rule mapE_Inr)
  ultimately obtain i where i: "i < length offs"
      "(case offs ! i of (dx, dy) \<Rightarrow> GetValPoint d (x + dx) (y + dy)) = Inr wp"
    by (auto simp: list_all2_conv_all_nth in_set_conv_nth)
  from i(1) have "offs ! i \<in> set offs" by simp
  with i(2) show ?thesis by (cases "offs ! i") force
qed

text \<open>On ranks up to \<open>RankMax\<close>, no sample is below it.\<close>

lemma LowestNeighbour_least:
  assumes "topology nf offs" and "LowestNeighbour nf d x y = Inr wp" and "bounded d"
    and "(dx, dy) \<in> set offs" and "GetValPoint d (x + dx) (y + dy) = Inr w"
  shows "Val wp \<le> Val w"
proof -
  from LowestNeighbour_Inr [OF assms(2)] topology_samples(1) [OF assms(1)]
  obtain vals where vals: "samples offs d x y = Inr vals" and ne: "vals \<noteq> []"
    and wp: "wp = lowest_scan vals RankMax (hd vals)"
    by auto
  have all2: "list_all2 (\<lambda>a b. (case a of (dx, dy) \<Rightarrow> GetValPoint d (x + dx) (y + dy)) = Inr b) offs vals"
    using vals unfolding samples_def by (rule mapE_Inr)
  have w: "w \<in> set vals"
  proof -
    from assms(4) obtain i where i: "i < length offs" "offs ! i = (dx, dy)"
      by (auto simp: in_set_conv_nth)
    with all2 have "GetValPoint d (x + dx) (y + dy) = Inr (vals ! i)" "i < length vals"
      by (auto simp: list_all2_conv_all_nth)
    with assms(5) show ?thesis by auto
  qed
  have bnd: "\<forall>v \<in> set vals. Val v \<le> RankMax"
  proof
    fix v assume "v \<in> set vals"
    then obtain i where "(case offs ! i of (dx, dy) \<Rightarrow> GetValPoint d (x + dx) (y + dy)) = Inr v"
      using all2 by (auto simp: list_all2_conv_all_nth in_set_conv_nth)
    then show "Val v \<le> RankMax"
      using assms(3) by (cases "offs ! i") (auto dest: GetValPoint_bounded)
  qed
  from lowest_scan_cases [of vals RankMax "hd vals"] show ?thesis
  proof
    assume c: "lowest_scan vals RankMax (hd vals) = hd vals \<and> (\<forall>v \<in> set vals. RankMax \<le> Val v)"
    have "Val (hd vals) \<le> RankMax" using bnd ne by simp
    moreover have "RankMax \<le> Val w" using c w by simp
    ultimately show ?thesis using c wp by simp
  next
    assume "lowest_scan vals RankMax (hd vals) \<in> set vals \<and>
      Val (lowest_scan vals RankMax (hd vals)) < RankMax \<and>
      (\<forall>v \<in> set vals. Val (lowest_scan vals RankMax (hd vals)) \<le> Val v)"
    then show ?thesis using w wp by simp
  qed
qed

lemma LowestNeighbour_bounded:
  assumes "topology nf offs" and "LowestNeighbour nf d x y = Inr wp" and "bounded d"
  shows "Val wp \<le> RankMax"
  using LowestNeighbour_sample [OF assms(1,2)] assms(3)
  by (auto dest: GetValPoint_bounded)

lemma LowestNeighbour_total:
  assumes "topology nf offs" and "well_formed d"
  shows "\<exists>wp. LowestNeighbour nf d x y = Inr wp"
proof -
  have "\<exists>vals. samples offs d x y = Inr vals"
    unfolding samples_def
    by (rule mapE_total) (use GetValPoint_total [OF assms(2)] in auto)
  then obtain vals where vals: "samples offs d x y = Inr vals" ..
  then have "length vals = length offs"
    unfolding samples_def by (auto dest!: mapE_Inr simp: list_all2_lengthD)
  then have "vals \<noteq> []" using topology_samples(2) [OF assms(1)] by auto
  then show ?thesis
    using vals by (auto simp: LowestNeighbour_def topology_samples(1) [OF assms(1)] split: list.splits)
qed

subsection \<open>Relaxation on a well-formed map\<close>

lemma relax_well_formed:
  assumes "relax nf x y (d, mut) = Inr (d', mut')"
  shows "M d' = M d" and "shaped d \<Longrightarrow> shaped d'" and "well_formed d \<Longrightarrow> well_formed d'"
proof -
  from relax_cases [OF assms] show m: "M d' = M d" by auto
  from relax_cases [OF assms] show sh: "shaped d \<Longrightarrow> shaped d'"
    by (auto intro: shaped_update)
  show "well_formed d \<Longrightarrow> well_formed d'" using m sh by (simp add: well_formed_def)
qed

lemma relax_total:
  assumes "topology nf offs" and "well_formed d" and "inb (M d) x y"
  shows "\<exists>d' mut'. relax nf x y (d, mut) = Inr (d', mut')"
proof -
  from LowestNeighbour_total [OF assms(1,2)] obtain wp where "LowestNeighbour nf d x y = Inr wp" ..
  moreover have "in_range (Points d) x y"
    using assms(2,3) by (simp add: well_formed_def in_range_shaped)
  ultimately show ?thesis
    by (auto simp: relax_def load_def store_def Let_def)
qed

text \<open>A pass over a map whose storage has the grid's dimensions visits in-bounds cells only.\<close>

lemma sweep_total:
  assumes d: "I d"
    and shape: "\<And>t. I t \<Longrightarrow> shaped t \<and> M t = m"
    and step: "\<And>t a b mut. I t \<Longrightarrow> inb m a b \<Longrightarrow> \<exists>t' mut'. relax nf a b (t, mut) = Inr (t', mut') \<and> I t'"
  shows "\<exists>t' mut'. sweep nf d = Inr (t', mut') \<and> I t'"
proof -
  let ?J = "\<lambda>s. I (fst s)"
  have cell: "\<exists>u'. sweep_cell nf a b u = Inr u' \<and> ?J u'"
    if u: "?J u" and a: "a < nat (SizeX m)" and b: "b < nat (SizeY m)" for a b u
  proof -
    have "inb m (int a) (int b)" using a b by (auto simp: inb_def)
    from step [OF u this, of "snd u"] obtain t' mut' where
      r1: "relax nf (int a) (int b) u = Inr (t', mut')" and t': "I t'" by auto
    have "inb m ((SizeX m - 1) - int a) ((SizeY m - 1) - int b)"
      using a b by (auto simp: inb_def)
    from step [OF t' this, of mut'] obtain t'' mut'' where
      "relax nf ((SizeX m - 1) - int a) ((SizeY m - 1) - int b) (t', mut') = Inr (t'', mut'')"
      and "I t''" by auto
    then show ?thesis using r1 shape [OF t'] by (simp add: sweep_cell_def)
  qed
  have row: "\<exists>u'. sweep_row nf a u = Inr u' \<and> ?J u'" if u: "?J u" and a: "a < nat (SizeX m)" for a u
  proof -
    have "Points (fst u) ! a \<in> set (Points (fst u))"
      using shape [OF u] a by (intro nth_mem) (simp add: shaped_def)
    then have len: "length (Points (fst u) ! a) = nat (SizeY m)"
      using shape [OF u] by (simp add: shaped_def)
    have "\<exists>u'. forE [0 ..< nat (SizeY m)] (sweep_cell nf a) u = Inr u' \<and> ?J u'"
      by (rule forE_total [where I = ?J]) (use u a cell in auto)
    then show ?thesis by (simp add: sweep_row_def len)
  qed
  have "length (Points d) = nat (SizeX m)"
    using shape [OF d] by (simp add: shaped_def)
  moreover have "\<exists>u'. forE [0 ..< nat (SizeX m)] (sweep_row nf) (d, False) = Inr u' \<and> ?J u'"
    by (rule forE_total [where I = ?J]) (use d row in auto)
  ultimately show ?thesis by (auto simp: sweep_def)
qed

text \<open>
  With either reference topology, the loop of \<open>Calc\<close> returns on every well-formed map,
  with whatever else every relaxation preserves.
\<close>

lemma Calc_loop_well_formed:
  assumes top: "topology nf offs" and wf: "well_formed d" and P: "P d"
    and keep: "\<And>a b t mut t' mut'. well_formed t \<Longrightarrow> P t \<Longrightarrow>
                 relax nf a b (t, mut) = Inr (t', mut') \<Longrightarrow> P t'"
  shows "\<exists>r. Calc_loop nf d = Some (Inr r) \<and> well_formed r \<and> M r = M d \<and> P r \<and> converged nf r"
proof -
  let ?I = "\<lambda>t. well_formed t \<and> M t = M d \<and> P t"
  have "\<exists>r. Calc_loop nf d = Some (Inr r) \<and> ?I r \<and> converged nf r"
  proof (rule Calc_loop_returns [where I = ?I])
    show "?I d" using wf P by simp
  next
    fix t assume t: "?I t"
    show "\<exists>t' mut. sweep nf t = Inr (t', mut) \<and> ?I t'"
    proof (rule sweep_total [where I = ?I and m = "M d"])
      show "?I t" by (rule t)
    next
      fix u assume "?I u"
      then show "shaped u \<and> M u = M d" by (simp add: well_formed_def)
    next
      fix u a b mut
      assume u: "?I u" and ab: "inb (M d) a b"
      from relax_total [OF top, of u a b mut] u ab obtain u' mut' where
        r: "relax nf a b (u, mut) = Inr (u', mut')" by auto
      from relax_well_formed [OF r] keep [OF _ _ r] u
      have "?I u'" by simp
      with r show "\<exists>t' mut'. relax nf a b (u, mut) = Inr (t', mut') \<and> ?I t'" by blast
    qed
  qed
  then show ?thesis by blast
qed

subsection \<open>Targets\<close>

lemma store_well_formed:
  assumes "store d x y v = Inr d'"
  shows "M d' = M d" and "shaped d \<Longrightarrow> shaped d'" and "well_formed d \<Longrightarrow> well_formed d'"
proof -
  from store_Inr(2) [OF assms] show m: "M d' = M d" by simp
  from store_Inr(2) [OF assms] show sh: "shaped d \<Longrightarrow> shaped d'" by (simp add: shaped_update)
  show "well_formed d \<Longrightarrow> well_formed d'" using m sh by (simp add: well_formed_def)
qed

lemma store_load:
  assumes "store d x y v = Inr d'"
  shows "load d' a b = (if a = x \<and> b = y then Inr v else load d a b)"
  using store_Inr [OF assms] by (simp add: load_after_update)

lemma set_targets_invariant:
  assumes "set_targets d points = Inr d'" and "I d"
    and "\<And>x y t t'. I t \<Longrightarrow> store t x y 0 = Inr t' \<Longrightarrow> I t'"
  shows "I d'"
proof -
  have "forE points (\<lambda>(x, y) d'. store d' x y 0) d = Inr d'"
    using assms(1) by (simp add: set_targets_def)
  then show ?thesis
  proof (rule forE_invariant [where I = I])
    show "I d" by (rule assms(2))
  next
    fix a t t'
    assume "I t" and "(case a of (x, y) \<Rightarrow> \<lambda>d'. store d' x y 0) t = Inr t'"
    then show "I t'" using assms(3) [of t "fst a" "snd a" t'] by (simp add: case_prod_beta)
  qed
qed

lemma set_targets_invariant_mem:
  assumes "set_targets d points = Inr d'" and "I d"
    and "\<And>x y t t'. (x, y) \<in> set points \<Longrightarrow> I t \<Longrightarrow> store t x y 0 = Inr t' \<Longrightarrow> I t'"
  shows "I d'"
proof -
  have "forE points (\<lambda>(x, y) d'. store d' x y 0) d = Inr d'"
    using assms(1) by (simp add: set_targets_def)
  then show ?thesis
  proof (rule forE_invariant [where I = I])
    show "I d" by (rule assms(2))
  next
    fix a t t'
    assume "a \<in> set points" and "I t" and "(case a of (x, y) \<Rightarrow> \<lambda>d'. store d' x y 0) t = Inr t'"
    then show "I t'" using assms(3) [of "fst a" "snd a" t t'] by (simp add: case_prod_beta)
  qed
qed

lemma set_targets_zero:
  assumes "set_targets d points = Inr d'" and "(x, y) \<in> set points"
  shows "load d' x y = Inr 0"
  using assms
proof (induction points arbitrary: d)
  case Nil
  then show ?case by simp
next
  case (Cons p points)
  obtain a b where p: "p = (a, b)" by (cases p)
  from Cons.prems(1) p obtain t where t: "store d a b 0 = Inr t"
    and rest: "set_targets t points = Inr d'"
    by (auto simp: set_targets_def split: sum.splits)
  show ?case
  proof (cases "(x, y) \<in> set points")
    case True
    then show ?thesis by (rule Cons.IH [OF rest])
  next
    case False
    with Cons.prems(2) p have "x = a" "y = b" by auto
    with t have "load t x y = Inr 0" by (simp add: store_load)
    then show ?thesis
    proof (rule set_targets_invariant [where I = "\<lambda>t. load t x y = Inr 0", OF rest])
      fix u v w w'
      assume "load w x y = Inr 0" and "store w u v 0 = Inr w'"
      then show "load w' x y = Inr 0" by (simp add: store_load)
    qed
  qed
qed

lemma set_targets_Inr_iff:
  assumes "shaped d"
  shows "(\<exists>d'. set_targets d points = Inr d') \<longleftrightarrow> targets_inb (M d) points"
  using assms
proof (induction points arbitrary: d)
  case Nil
  then show ?case by (simp add: set_targets_def targets_inb_def)
next
  case (Cons p points)
  obtain a b where p: "p = (a, b)" by (cases p)
  show ?case
  proof (cases "inb (M d) a b")
    case True
    then obtain t where t: "store d a b 0 = Inr t"
      using Cons.prems by (auto simp: store_def in_range_shaped)
    from store_well_formed(1,2) [OF t] Cons.prems have "M t = M d" "shaped t" by simp_all
    with Cons.IH [of t] t p True show ?thesis
      by (simp add: set_targets_def targets_inb_def)
  next
    case False
    then have "store d a b 0 = Inl IndexOutOfRange"
      using Cons.prems by (simp add: store_def in_range_shaped)
    with p False show ?thesis by (simp add: set_targets_def targets_inb_def)
  qed
qed

lemma set_targets_error:
  "set_targets d points = Inl e \<Longrightarrow> e = IndexOutOfRange"
  unfolding set_targets_def
  by (induction points arbitrary: d) (auto simp: store_def split: sum.splits if_splits)

text \<open>A relaxation never overwrites a zero.\<close>

lemma relax_keeps_zero:
  assumes "relax nf x y (d, mut) = Inr (d', mut')" and "load d a b = Inr 0"
  shows "load d' a b = Inr 0"
proof -
  from relax_cases [OF assms(1)] show ?thesis
  proof
    assume "d' = d \<and> mut' = mut"
    then show ?thesis using assms(2) by simp
  next
    assume c: "mut' \<and> IsPassable (M d) x y \<and> in_range (Points d) x y \<and>
      (\<exists>wp. LowestNeighbour nf d x y = Inr wp \<and> Val wp + 1 < Points d ! nat x ! nat y \<and>
         d' = d\<lparr>Points := (Points d)[nat x := (Points d ! nat x)[nat y := Val wp + 1]]\<rparr>)"
    then have "load d x y \<noteq> Inr 0" by (auto simp: load_def)
    with assms(2) have "\<not> (a = x \<and> b = y)" by auto
    with c assms(2) show ?thesis by (auto simp: load_after_update)
  qed
qed

lemma relax_zero_targets:
  "relax nf x y (d, mut) = Inr (d', mut') \<Longrightarrow> zero_targets points d \<Longrightarrow> zero_targets points d'"
  unfolding zero_targets_def by (auto dest: relax_keeps_zero)

lemma set_targets_same:
  assumes "zero_targets points d"
  shows "set_targets d points = Inr d"
  using assms
  by (induction points) (auto simp: set_targets_def zero_targets_def store_same)

subsection \<open>\<open>BlankDMap\<close>, \<open>Calc\<close> and \<open>Recalc\<close> on a well-formed map\<close>

lemma BlankDMap_Inr:
  assumes "BlankDMap m = Inr d"
  shows "M d = m" and "shaped d" and "bounded d"
    and "Points d = replicate (nat (SizeX m)) (replicate (nat (SizeY m)) RankMax)"
  using assms by (auto simp: BlankDMap_def shaped_def bounded_def split: if_splits)

lemma reset_well_formed:
  "well_formed d \<Longrightarrow> well_formed (d\<lparr>Points := map (map (\<lambda>_. RankMax)) (Points d)\<rparr>)"
  by (auto simp: well_formed_def shaped_def)

lemma Calc_well_formed:
  assumes top: "topology nf offs" and wf: "well_formed d" and inb: "targets_inb (M d) points"
    and P: "P d"
    and keep_store: "\<And>a b t t'. (a, b) \<in> set points \<Longrightarrow> P t \<Longrightarrow> store t a b 0 = Inr t' \<Longrightarrow> P t'"
    and keep_relax: "\<And>a b t mut t' mut'. well_formed t \<Longrightarrow> zero_targets points t \<Longrightarrow> P t \<Longrightarrow>
                 relax nf a b (t, mut) = Inr (t', mut') \<Longrightarrow> P t'"
  shows "\<exists>r. Calc nf d points = Some (Inr r) \<and> well_formed r \<and> M r = M d \<and>
             zero_targets points r \<and> P r \<and> converged nf r"
proof -
  from wf inb obtain d1 where d1: "set_targets d points = Inr d1"
    using set_targets_Inr_iff [of d points] by (auto simp: well_formed_def)
  have wf1: "well_formed d1 \<and> M d1 = M d"
    by (rule set_targets_invariant [where I = "\<lambda>t. well_formed t \<and> M t = M d", OF d1])
      (use wf store_well_formed in auto)
  have P1: "P d1"
    by (rule set_targets_invariant_mem [where I = P, OF d1 P keep_store])
  have z1: "zero_targets points d1"
    using set_targets_zero [OF d1] by (auto simp: zero_targets_def)
  let ?Q = "\<lambda>t. zero_targets points t \<and> P t"
  have "\<exists>r. Calc_loop nf d1 = Some (Inr r) \<and> well_formed r \<and> M r = M d1 \<and> ?Q r \<and> converged nf r"
  proof (rule Calc_loop_well_formed [where P = ?Q, OF top])
    show "well_formed d1" using wf1 by simp
    show "?Q d1" using z1 P1 by simp
  next
    fix a b t mut t' mut'
    assume "well_formed t" and "?Q t" and "relax nf a b (t, mut) = Inr (t', mut')"
    then show "?Q t'"
      using keep_relax [of t a b mut t' mut'] relax_zero_targets [of nf a b t mut t' mut' points]
      by simp
  qed
  then show ?thesis using d1 wf1 by (auto simp: Calc_def)
qed

lemma converged_Calc:
  assumes "zero_targets points r" and "converged nf r"
  shows "Calc nf r points = Some (Inr r)"
proof -
  have "Calc_loop nf r = Some (Inr r)"
    using assms(2) by (subst Calc_loop.simps) (simp add: converged_def)
  then show ?thesis using set_targets_same [OF assms(1)] by (simp add: Calc_def)
qed

lemma example_well_formed: "well_formed blank_3x3"
  by (auto simp: well_formed_def shaped_def grid_contract_def inb_def blank_3x3_def open_grid_def)

lemma example_blank: "BlankDMap (open_grid 3 3) = Inr blank_3x3"
  by (simp add: BlankDMap_def open_grid_def blank_3x3_def numeral_eq_Suc)

lemma blocked_well_formed: "well_formed blank_1x3"
  by (auto simp: well_formed_def shaped_def grid_contract_def inb_def blank_1x3_def blocked_1x3_def)

lemma blocked_blank: "BlankDMap blocked_1x3 = Inr blank_1x3"
  by (simp add: BlankDMap_def blocked_1x3_def blank_1x3_def numeral_eq_Suc)

text \<open>
  The scenarios of the spec: the 3 by 3 open grid with the target at its centre, under
  both topologies, and the 1 by 3 grid with the target at one end.
\<close>

lemma scenario_manhattan:
  "map_option (map_sum id Points) (Calc ManhattanNeighbours blank_3x3 [(1, 1)]) =
     Some (Inr [[2, 1, 2], [1, 0, 1], [2, 1, 2]])"
  by code_simp

lemma scenario_diagonal:
  "map_option (map_sum id Points) (Calc DiagonalNeighbours blank_3x3 [(1, 1)]) =
     Some (Inr [[1, 1, 1], [1, 0, 1], [1, 1, 1]])"
  by code_simp

lemma scenario_blocked:
  "map_option (map_sum id Points) (Calc ManhattanNeighbours blank_1x3 [(0, 0)]) =
     Some (Inr [[0, RankMax, RankMax]])"
  by code_simp

text \<open>An impassable target is a source like any other.\<close>

lemma scenario_impassable_target:
  "map_option (map_sum id Points) (Calc ManhattanNeighbours blank_1x3 [(0, 1)]) =
     Some (Inr [[1, 0, 1]])"
  by code_simp

subsection \<open>Claims\<close>

text \<open>
  C5. For every coordinate that the grid's \<open>OOB\<close> reports out of bounds, \<open>GetValPoint\<close>
  returns the point with rank \<open>RankMax\<close>, whatever the rank storage \<open>ps\<close> holds.
\<close>

theorem GetValPoint_out_of_bounds:
  "OOB (M d) x y \<Longrightarrow> GetValPoint (d\<lparr>Points := ps\<rparr>) x y = Inr \<lparr>X = x, Y = y, Val = RankMax\<rparr>"
  by (simp add: GetValPoint_def)

theorem GetValPoint_out_of_bounds_witness:
  "OOB (M blank_3x3) (- 1) 0 \<and>
   GetValPoint (blank_3x3\<lparr>Points := [[7]]\<rparr>) (- 1) 0 = Inr \<lparr>X = - 1, Y = 0, Val = RankMax\<rparr>"
proof -
  have h: "OOB (M blank_3x3) (- 1) 0" by (simp add: blank_3x3_def open_grid_def)
  from h GetValPoint_out_of_bounds [OF h, of "[[7]]"] show ?thesis by simp
qed

text \<open>
  C10. \<open>Calc\<close> writes rank 0 at every target without a bounds check: on a map whose
  storage has the grid's dimensions, the target writes all succeed exactly when every
  target is in bounds, and with any target out of bounds \<open>Calc\<close> panics with an index
  out of range; \<open>GetValPoint\<close>, on a well-formed map, returns for every coordinate.
\<close>

theorem Calc_targets_unchecked:
  assumes "shaped d"
  shows "((\<exists>d'. set_targets d points = Inr d') \<longleftrightarrow> targets_inb (M d) points) \<and>
         (\<not> targets_inb (M d) points \<longrightarrow> Calc nf d points = Some (Inl IndexOutOfRange)) \<and>
         (grid_contract (M d) \<longrightarrow> (\<exists>w. GetValPoint d x y = Inr w))"
proof -
  have a: "(\<exists>d'. set_targets d points = Inr d') \<longleftrightarrow> targets_inb (M d) points"
    by (rule set_targets_Inr_iff [OF assms])
  have "Calc nf d points = Some (Inl IndexOutOfRange)" if "\<not> targets_inb (M d) points"
  proof -
    from a that obtain e where "set_targets d points = Inl e"
      by (cases "set_targets d points") auto
    then show ?thesis using set_targets_error [of d points e] by (simp add: Calc_def)
  qed
  moreover have "\<exists>w. GetValPoint d x y = Inr w" if "grid_contract (M d)"
    by (rule GetValPoint_total) (use assms that in \<open>simp add: well_formed_def\<close>)
  ultimately show ?thesis using a by blast
qed

theorem Calc_targets_unchecked_witness:
  "shaped blank_3x3 \<and> targets_inb (M blank_3x3) [(1, 1)] \<and>
   (\<exists>d'. set_targets blank_3x3 [(1, 1)] = Inr d') \<and>
   \<not> targets_inb (M blank_3x3) [(1, 1), (3, 0)] \<and>
   Calc ManhattanNeighbours blank_3x3 [(1, 1), (3, 0)] = Some (Inl IndexOutOfRange) \<and>
   grid_contract (M blank_3x3) \<and> (\<exists>w. GetValPoint blank_3x3 3 0 = Inr w)"
proof -
  have sh: "shaped blank_3x3" and gc: "grid_contract (M blank_3x3)"
    using example_well_formed by (simp_all add: well_formed_def)
  have t1: "targets_inb (M blank_3x3) [(1, 1)]"
    and t2: "\<not> targets_inb (M blank_3x3) [(1, 1), (3, 0)]"
    by (simp_all add: targets_inb_def inb_def blank_3x3_def open_grid_def)
  from Calc_targets_unchecked [OF sh, of "[(1, 1)]" ManhattanNeighbours 3 0]
    Calc_targets_unchecked [OF sh, of "[(1, 1), (3, 0)]" ManhattanNeighbours 3 0]
    sh gc t1 t2
  show ?thesis by blast
qed

text \<open>
  C3. On a well-formed map, with either reference topology and in-bounds targets, \<open>Calc\<close>
  and \<open>Recalc\<close> return, and every target then holds rank 0; nothing is assumed of the
  passability of the targets.
\<close>

theorem Calc_targets_zero:
  assumes "topology nf offs" and "well_formed d" and "targets_inb (M d) points"
  shows "(\<exists>r. Calc nf d points = Some (Inr r) \<and> zero_targets points r) \<and>
         (\<exists>r. Recalc nf d points = Some (Inr r) \<and> zero_targets points r)"
proof -
  have "\<exists>r. Calc nf d points = Some (Inr r) \<and> well_formed r \<and> M r = M d \<and>
             zero_targets points r \<and> True \<and> converged nf r"
    by (rule Calc_well_formed [where P = "\<lambda>_. True", OF assms]) simp_all
  moreover
  let ?d = "d\<lparr>Points := map (map (\<lambda>_. RankMax)) (Points d)\<rparr>"
  have "\<exists>r. Calc nf ?d points = Some (Inr r) \<and> well_formed r \<and> M r = M ?d \<and>
             zero_targets points r \<and> True \<and> converged nf r"
    by (rule Calc_well_formed [where P = "\<lambda>_. True", OF assms(1)])
      (use assms(2,3) reset_well_formed [of d] in simp_all)
  ultimately show ?thesis by (auto simp: Recalc_def)
qed

theorem Calc_targets_zero_witness:
  "topology ManhattanNeighbours manhattan_offsets \<and> well_formed blank_1x3 \<and>
   targets_inb (M blank_1x3) [(0, 1)] \<and> \<not> IsPassable (M blank_1x3) 0 1 \<and>
   (\<exists>r. Calc ManhattanNeighbours blank_1x3 [(0, 1)] = Some (Inr r) \<and> load r 0 1 = Inr 0) \<and>
   (\<exists>r. Recalc ManhattanNeighbours blank_1x3 [(0, 1)] = Some (Inr r) \<and> load r 0 1 = Inr 0)"
proof -
  have top: "topology ManhattanNeighbours manhattan_offsets" by (simp add: topology_def)
  have t: "targets_inb (M blank_1x3) [(0, 1)]" and p: "\<not> IsPassable (M blank_1x3) 0 1"
    by (simp_all add: targets_inb_def inb_def blank_1x3_def blocked_1x3_def)
  from Calc_targets_zero [OF top blocked_well_formed t] top blocked_well_formed t p
  show ?thesis by (auto simp: zero_targets_def)
qed

text \<open>
  C2. \<open>Calc\<close> always ends, be it by a panic: a pass that makes a mutation strictly
  lowers the sum of all ranks, a natural number, so only finitely many passes mutate.
  On a well-formed map, with either reference topology and in-bounds targets, nothing
  panics: \<open>Calc\<close> returns a map on which a further pass makes no mutation.
\<close>

theorem Calc_terminates:
  "(\<exists>res. Calc nf d points = Some res) \<and>
   (sweep nf d = Inr (d', True) \<longrightarrow> total_rank d' < total_rank d) \<and>
   (topology nf offs \<and> well_formed d \<and> targets_inb (M d) points \<longrightarrow>
      (\<exists>r. Calc nf d points = Some (Inr r) \<and> sweep nf r = Inr (r, False)))"
proof -
  have "\<exists>res. Calc nf d points = Some res"
    using Calc_loop_terminates [of nf] by (cases "set_targets d points") (simp_all add: Calc_def)
  moreover have "total_rank d' < total_rank d" if "sweep nf d = Inr (d', True)"
    using sweep_total_rank [OF that] by simp
  moreover have "\<exists>r. Calc nf d points = Some (Inr r) \<and> sweep nf r = Inr (r, False)"
    if h: "topology nf offs \<and> well_formed d \<and> targets_inb (M d) points"
  proof -
    have "\<exists>r. Calc nf d points = Some (Inr r) \<and> well_formed r \<and> M r = M d \<and>
               zero_targets points r \<and> True \<and> converged nf r"
      by (rule Calc_well_formed [where P = "\<lambda>_. True" and offs = offs]) (use h in simp_all)
    then show ?thesis by (auto simp: converged_def)
  qed
  ultimately show ?thesis by blast
qed

theorem Calc_terminates_witness:
  "topology DiagonalNeighbours diagonal_offsets \<and> well_formed blank_3x3 \<and>
   targets_inb (M blank_3x3) [(1, 1)] \<and>
   (\<exists>r. Calc DiagonalNeighbours blank_3x3 [(1, 1)] = Some (Inr r) \<and>
        sweep DiagonalNeighbours r = Inr (r, False)) \<and>
   (\<exists>d'. sweep DiagonalNeighbours
           (blank_3x3\<lparr>Points := [[RankMax, RankMax, RankMax], [RankMax, 0, RankMax],
                                 [RankMax, RankMax, RankMax]]\<rparr>) = Inr (d', True) \<and>
         total_rank d' <
         total_rank (blank_3x3\<lparr>Points := [[RankMax, RankMax, RankMax], [RankMax, 0, RankMax],
                                          [RankMax, RankMax, RankMax]]\<rparr>))"
proof -
  let ?d = "blank_3x3\<lparr>Points := [[RankMax, RankMax, RankMax], [RankMax, 0, RankMax],
                                  [RankMax, RankMax, RankMax]]\<rparr>"
  have top: "topology DiagonalNeighbours diagonal_offsets" by (simp add: topology_def)
  have t: "targets_inb (M blank_3x3) [(1, 1)]"
    by (simp add: targets_inb_def inb_def blank_3x3_def open_grid_def)
  have "(case sweep DiagonalNeighbours ?d of Inl e \<Rightarrow> False | Inr (d', mut) \<Rightarrow> mut)"
    by code_simp
  then obtain d' where sw: "sweep DiagonalNeighbours ?d = Inr (d', True)"
    by (auto split: sum.splits)
  from Calc_terminates [of DiagonalNeighbours blank_3x3 "[(1, 1)]" d' diagonal_offsets]
    Calc_terminates [of DiagonalNeighbours ?d "[(1, 1)]" d' diagonal_offsets]
    top example_well_formed t sw
  show ?thesis by blast
qed

text \<open>
  C7. For a grid that keeps its contract, either reference topology and in-bounds
  targets: \<open>Calc\<close> on the blank map returns a map \<open>r\<close>, and \<open>Calc\<close> with the same targets
  on \<open>r\<close> returns \<open>r\<close> again, every rank unchanged.
\<close>

theorem Calc_idempotent:
  assumes "BlankDMap m = Inr d" and "grid_contract m" and "topology nf offs"
    and "targets_inb m points"
  shows "\<exists>r. Calc nf d points = Some (Inr r) \<and> Calc nf r points = Some (Inr r)"
proof -
  have wf: "well_formed d" and m: "M d = m"
    using BlankDMap_Inr(1,2) [OF assms(1)] assms(2) by (simp_all add: well_formed_def)
  have "\<exists>r. Calc nf d points = Some (Inr r) \<and> well_formed r \<and> M r = M d \<and>
             zero_targets points r \<and> True \<and> converged nf r"
    by (rule Calc_well_formed [where P = "\<lambda>_. True", OF assms(3) wf])
      (use assms(4) m in simp_all)
  then show ?thesis using converged_Calc by blast
qed

theorem Calc_idempotent_witness:
  "BlankDMap (open_grid 3 3) = Inr blank_3x3 \<and> grid_contract (open_grid 3 3) \<and>
   topology ManhattanNeighbours manhattan_offsets \<and> targets_inb (open_grid 3 3) [(1, 1)] \<and>
   (\<exists>r. Calc ManhattanNeighbours blank_3x3 [(1, 1)] = Some (Inr r) \<and>
        Calc ManhattanNeighbours r [(1, 1)] = Some (Inr r))"
proof -
  have gc: "grid_contract (open_grid 3 3)"
    by (auto simp: grid_contract_def inb_def open_grid_def)
  have top: "topology ManhattanNeighbours manhattan_offsets" by (simp add: topology_def)
  have t: "targets_inb (open_grid 3 3) [(1, 1)]"
    by (simp add: targets_inb_def inb_def open_grid_def)
  from Calc_idempotent [OF example_blank gc top t] example_blank gc top t
  show ?thesis by simp
qed

subsection \<open>Resetting the storage\<close>

lemma reset_is_blank:
  assumes "BlankDMap m = Inr d0" and "M d = m" and "shaped d"
  shows "d\<lparr>Points := map (map (\<lambda>_. RankMax)) (Points d)\<rparr> = d0"
proof -
  have rows: "map (\<lambda>_. RankMax) row = replicate (nat (SizeY m)) RankMax" if "row \<in> set (Points d)" for row
    using that assms(2,3) by (simp add: shaped_def map_replicate_const)
  have "map (map (\<lambda>_. RankMax)) (Points d) = map (\<lambda>_. replicate (nat (SizeY m)) RankMax) (Points d)"
    using rows by simp
  also have "\<dots> = replicate (nat (SizeX m)) (replicate (nat (SizeY m)) RankMax)"
    using assms(2,3) by (simp add: shaped_def map_replicate_const)
  finally have "Points (d\<lparr>Points := map (map (\<lambda>_. RankMax)) (Points d)\<rparr>) = Points d0"
    using BlankDMap_Inr(4) [OF assms(1)] by simp
  moreover have "M (d\<lparr>Points := map (map (\<lambda>_. RankMax)) (Points d)\<rparr>) = M d0"
    using BlankDMap_Inr(1) [OF assms(1)] assms(2) by simp
  ultimately show ?thesis by (rule DijkstraMap.equality) simp
qed

subsection \<open>Ranks stay at most \<open>RankMax\<close>\<close>

lemma RankMax_succ:
  assumes "v \<le> RankMax"
  shows "unat (v + 1) = unat v + 1"
proof -
  have "unat v \<le> 65525"
    using assms by (simp add: RankMax_def word_le_nat_alt)
  then show ?thesis by (simp add: unat_word_ariths)
qed

lemma relax_elim:
  assumes "relax nf x y (d, mut) = Inr (d', mut')"
  obtains (same) "d' = d" and "mut' = mut"
  | (changed) wp where "mut'" and "IsPassable (M d) x y" and "in_range (Points d) x y"
      and "LowestNeighbour nf d x y = Inr wp" and "Val wp + 1 < Points d ! nat x ! nat y"
      and "d' = d\<lparr>Points := (Points d)[nat x := (Points d ! nat x)[nat y := Val wp + 1]]\<rparr>"
  using relax_cases [OF assms] by (elim disjE conjE exE) blast+

lemma relax_bounded:
  assumes "relax nf x y (d, mut) = Inr (d', mut')" and "bounded d"
  shows "bounded d'"
proof -
  from assms(1) show ?thesis
  proof (cases rule: relax_elim)
    case same
    then show ?thesis using assms(2) by simp
  next
    case (changed wp)
    from changed(5) bounded_cell [OF assms(2) changed(3)] have "Val wp + 1 \<le> RankMax" by simp
    then show ?thesis unfolding changed(6) by (rule bounded_update [OF assms(2)])
  qed
qed

lemma store_bounded:
  "store d x y v = Inr d' \<Longrightarrow> bounded d \<Longrightarrow> v \<le> RankMax \<Longrightarrow> bounded d'"
  by (auto dest!: store_Inr(2) intro: bounded_update)

lemma Calc_bounded:
  assumes "Calc nf d points = Some (Inr r)" and "bounded d"
  shows "bounded r"
proof -
  from assms(1) obtain d1 where d1: "set_targets d points = Inr d1"
    and loop: "Calc_loop nf d1 = Some (Inr r)"
    by (auto simp: Calc_def split: sum.splits)
  have "bounded d1"
    by (rule set_targets_invariant [where I = bounded, OF d1 assms(2)])
      (auto intro: store_bounded)
  with loop have "bounded r \<and> converged nf r"
    by (rule Calc_loop_result [where I = bounded]) (auto intro: relax_bounded)
  then show ?thesis ..
qed

lemma reset_bounded: "bounded (d\<lparr>Points := map (map (\<lambda>_. RankMax)) (Points d)\<rparr>)"
  by (auto simp: bounded_def)

subsection \<open>A map with no rank below \<open>RankMax\<close>\<close>

lemma relax_all_max:
  assumes top: "topology nf offs"
    and allmax: "\<forall>row \<in> set (Points d). \<forall>v \<in> set row. v = RankMax"
    and r: "relax nf x y (d, mut) = Inr (d', mut')"
  shows "d' = d \<and> mut' = mut"
proof -
  have cell: "Points d ! nat a ! nat b = RankMax" if "in_range (Points d) a b" for a b
  proof -
    from that have "Points d ! nat a \<in> set (Points d)" "Points d ! nat a ! nat b \<in> set (Points d ! nat a)"
      by (auto simp: in_range_def intro!: nth_mem)
    with allmax show ?thesis by blast
  qed
  from r show ?thesis
  proof (cases rule: relax_elim)
    case same
    then show ?thesis by simp
  next
    case (changed wp)
    from LowestNeighbour_sample [OF top changed(4)] obtain dx dy where
      "GetValPoint d (x + dx) (y + dy) = Inr wp" by auto
    from GetValPoint_Inr [OF this] cell have "Val wp = RankMax" by auto
    with changed(5) cell [OF changed(3)] have "RankMax + 1 < RankMax" by simp
    then have False by (simp add: RankMax_def)
    then show ?thesis ..
  qed
qed

lemma sweep_all_max:
  assumes top: "topology nf offs" and wf: "well_formed d"
    and allmax: "\<forall>row \<in> set (Points d). \<forall>v \<in> set row. v = RankMax"
  shows "sweep nf d = Inr (d, False)"
proof -
  have "\<exists>t' mut'. sweep nf d = Inr (t', mut') \<and> t' = d"
  proof (rule sweep_total [where I = "\<lambda>t. t = d" and m = "M d"])
    fix t a b mut
    assume t: "t = d" and ab: "inb (M d) a b"
    from relax_total [OF top wf ab, of mut] obtain d' mut' where
      r: "relax nf a b (d, mut) = Inr (d', mut')" by auto
    from relax_all_max [OF top allmax r] r t
    show "\<exists>t' mut'. relax nf a b (t, mut) = Inr (t', mut') \<and> t' = d" by simp
  qed (use wf in \<open>simp_all add: well_formed_def\<close>)
  then obtain mut' where sw: "sweep nf d = Inr (d, mut')" by auto
  have "(d, mut') = (d, False)"
  proof (rule sweep_invariant [where I = "\<lambda>s. s = (d, False)", OF sw])
    fix a b t t'
    assume "t = (d, False)" and "relax nf a b t = Inr t'"
    then show "t' = (d, False)"
      using relax_all_max [OF top allmax, of a b False "fst t'" "snd t'"] by (cases t') simp
  qed simp
  with sw show ?thesis by simp
qed

subsection \<open>Claims on \<open>Recalc\<close>, the empty target list and the rank bound\<close>

text \<open>
  C4. For a map \<open>d\<close> over the grid \<open>m\<close> whose storage has the grid's dimensions,
  \<open>Recalc\<close> gives what \<open>Calc\<close> gives on the map that \<open>BlankDMap\<close> makes for \<open>m\<close>: the
  same rank field, cell for cell.
\<close>

theorem Recalc_is_blank_Calc:
  assumes "BlankDMap m = Inr d0" and "M d = m" and "shaped d"
  shows "Recalc nf d points = Calc nf d0 points"
  by (simp add: Recalc_def reset_is_blank [OF assms])

theorem Recalc_is_blank_Calc_witness:
  "BlankDMap (open_grid 3 3) = Inr blank_3x3 \<and>
   M (blank_3x3\<lparr>Points := [[2, 1, 2], [1, 0, 1], [2, 1, 2]]\<rparr>) = open_grid 3 3 \<and>
   shaped (blank_3x3\<lparr>Points := [[2, 1, 2], [1, 0, 1], [2, 1, 2]]\<rparr>) \<and>
   Recalc ManhattanNeighbours (blank_3x3\<lparr>Points := [[2, 1, 2], [1, 0, 1], [2, 1, 2]]\<rparr>) [(0, 0)] =
   Calc ManhattanNeighbours blank_3x3 [(0, 0)]"
proof -
  let ?d = "blank_3x3\<lparr>Points := [[2, 1, 2], [1, 0, 1], [2, 1, 2]]\<rparr>"
  have m: "M ?d = open_grid 3 3" by (simp add: blank_3x3_def)
  have sh: "shaped ?d" by (simp add: shaped_def blank_3x3_def open_grid_def)
  from Recalc_is_blank_Calc [OF example_blank m sh] example_blank m sh
  show ?thesis by simp
qed

text \<open>
  C6. With no target, on the blank map of a grid that keeps its contract and with either
  reference topology, \<open>Calc\<close> and \<open>Recalc\<close> return the map as it is: the first pass
  makes no mutation and every cell holds \<open>RankMax\<close>.
\<close>

theorem Calc_no_targets:
  assumes "BlankDMap m = Inr d" and "grid_contract m" and "topology nf offs"
  shows "Calc nf d [] = Some (Inr d) \<and> Recalc nf d [] = Some (Inr d) \<and>
         sweep nf d = Inr (d, False) \<and>
         (\<forall>row \<in> set (Points d). \<forall>v \<in> set row. v = RankMax)"
proof -
  have wf: "well_formed d"
    using BlankDMap_Inr(1,2) [OF assms(1)] assms(2) by (simp add: well_formed_def)
  have allmax: "\<forall>row \<in> set (Points d). \<forall>v \<in> set row. v = RankMax"
    using BlankDMap_Inr(4) [OF assms(1)] by auto
  have sw: "sweep nf d = Inr (d, False)"
    by (rule sweep_all_max [OF assms(3) wf allmax])
  have calc: "Calc nf d [] = Some (Inr d)"
    by (rule converged_Calc) (use sw in \<open>simp_all add: zero_targets_def converged_def\<close>)
  have "d\<lparr>Points := map (map (\<lambda>_. RankMax)) (Points d)\<rparr> = d"
    by (rule reset_is_blank [OF assms(1)]) (use BlankDMap_Inr(1,2) [OF assms(1)] in simp_all)
  then have "Recalc nf d [] = Some (Inr d)"
    using calc by (simp add: Recalc_def)
  with calc sw allmax show ?thesis by blast
qed

theorem Calc_no_targets_witness:
  "BlankDMap (open_grid 3 3) = Inr blank_3x3 \<and> grid_contract (open_grid 3 3) \<and>
   topology DiagonalNeighbours diagonal_offsets \<and>
   Calc DiagonalNeighbours blank_3x3 [] = Some (Inr blank_3x3) \<and>
   Recalc DiagonalNeighbours blank_3x3 [] = Some (Inr blank_3x3) \<and>
   Points blank_3x3 ! 1 ! 2 = RankMax"
proof -
  have gc: "grid_contract (open_grid 3 3)"
    by (auto simp: grid_contract_def inb_def open_grid_def)
  have top: "topology DiagonalNeighbours diagonal_offsets" by (simp add: topology_def)
  from Calc_no_targets [OF example_blank gc top] example_blank gc top
  show ?thesis by (simp add: blank_3x3_def)
qed

text \<open>
  C8. With either reference topology: every rank is at most \<open>RankMax\<close> on the map that
  \<open>BlankDMap\<close> makes; a relaxation, \<open>Calc\<close> and \<open>Recalc\<close> keep that bound; and on a
  map with the bound, the rank that \<open>LowestNeighbour\<close> returns is at most \<open>RankMax\<close>,
  so that adding one to it does not wrap around in 16 bits.
\<close>

theorem ranks_bounded:
  assumes "topology nf offs"
  shows "(BlankDMap m = Inr d0 \<longrightarrow> bounded d0) \<and>
         (bounded d \<and> relax nf x y (d, mut) = Inr (d', mut') \<longrightarrow> bounded d') \<and>
         (bounded d \<and> Calc nf d points = Some (Inr r) \<longrightarrow> bounded r) \<and>
         (Recalc nf d points = Some (Inr r') \<longrightarrow> bounded r') \<and>
         (bounded d \<and> LowestNeighbour nf d x y = Inr wp \<longrightarrow>
            Val wp \<le> RankMax \<and> unat (Val wp + 1) = unat (Val wp) + 1)"
proof -
  have "bounded d0" if "BlankDMap m = Inr d0"
    by (rule BlankDMap_Inr(3) [OF that])
  moreover have "bounded d'" if "bounded d \<and> relax nf x y (d, mut) = Inr (d', mut')"
    using that relax_bounded by blast
  moreover have "bounded r" if "bounded d \<and> Calc nf d points = Some (Inr r)"
    using that Calc_bounded by blast
  moreover have "bounded r'" if "Recalc nf d points = Some (Inr r')"
    using that Calc_bounded [OF _ reset_bounded] by (simp add: Recalc_def)
  moreover have "Val wp \<le> RankMax \<and> unat (Val wp + 1) = unat (Val wp) + 1"
    if "bounded d \<and> LowestNeighbour nf d x y = Inr wp"
    using that LowestNeighbour_bounded [OF assms, of d x y wp] RankMax_succ by blast
  ultimately show ?thesis by blast
qed

theorem ranks_bounded_witness:
  "topology ManhattanNeighbours manhattan_offsets \<and>
   BlankDMap (open_grid 3 3) = Inr blank_3x3 \<and> bounded blank_3x3 \<and>
   (\<exists>d' mut'. relax ManhattanNeighbours 1 1 (blank_3x3, False) = Inr (d', mut') \<and> bounded d') \<and>
   (\<exists>r. Calc ManhattanNeighbours blank_3x3 [(1, 1)] = Some (Inr r) \<and> bounded r) \<and>
   (\<exists>r. Recalc ManhattanNeighbours blank_3x3 [(1, 1)] = Some (Inr r) \<and> bounded r) \<and>
   (\<exists>wp. LowestNeighbour ManhattanNeighbours blank_3x3 1 1 = Inr wp \<and>
      Val wp \<le> RankMax \<and> unat (Val wp + 1) = unat (Val wp) + 1)"
proof -
  let ?nf = ManhattanNeighbours
  have top: "topology ?nf manhattan_offsets" by (simp add: topology_def)
  have inb: "inb (M blank_3x3) 1 1" and t: "targets_inb (M blank_3x3) [(1, 1)]"
    by (simp_all add: targets_inb_def inb_def blank_3x3_def open_grid_def)
  from relax_total [OF top example_well_formed inb] obtain d' mut' where
    rel: "relax ?nf 1 1 (blank_3x3, False) = Inr (d', mut')" by blast
  from Calc_well_formed [where P = "\<lambda>_. True", OF top example_well_formed t] obtain r where
    calc: "Calc ?nf blank_3x3 [(1, 1)] = Some (Inr r)" by auto
  have "Recalc ?nf blank_3x3 [(1, 1)] = Calc ?nf blank_3x3 [(1, 1)]"
    by (simp add: Recalc_def blank_3x3_def)
  with calc have recalc: "Recalc ?nf blank_3x3 [(1, 1)] = Some (Inr r)" by simp
  from LowestNeighbour_total [OF top example_well_formed] obtain wp where
    wp: "LowestNeighbour ?nf blank_3x3 1 1 = Inr wp" by blast
  from ranks_bounded [OF top, of "open_grid 3 3" blank_3x3 blank_3x3 1 1 False d' mut' "[(1, 1)]" r r wp]
    top example_blank rel calc recalc wp
  show ?thesis by blast
qed

subsection \<open>Ranks are path lengths\<close>

lemma blank_path_sound:
  assumes "BlankDMap m = Inr d"
  shows "path_sound offs points d"
proof -
  have "v = RankMax" if "load d x y = Inr v" for x y v
  proof -
    from that have "in_range (Points d) x y" and v: "v = Points d ! nat x ! nat y"
      by (auto simp: load_def split: if_splits)
    then have "Points d ! nat x \<in> set (Points d)" "v \<in> set (Points d ! nat x)"
      by (auto simp: in_range_def intro!: nth_mem)
    then show ?thesis using BlankDMap_Inr(4) [OF assms] by auto
  qed
  then show ?thesis by (auto simp: path_sound_def)
qed

lemma store_path_sound:
  assumes "store d x y 0 = Inr d'" and "(x, y) \<in> set points" and "path_sound offs points d"
  shows "path_sound offs points d'"
  unfolding path_sound_def
proof (intro allI impI)
  fix a b v
  assume h: "load d' a b = Inr v \<and> v < RankMax"
  show "hops (M d') offs points (unat v) (a, b)"
  proof (cases "a = x \<and> b = y")
    case True
    with h assms(1) have "v = 0" by (simp add: store_load)
    with True assms(2) show ?thesis by (simp add: hops_target)
  next
    case False
    with h assms(1) have "load d a b = Inr v" by (auto simp: store_load)
    with h assms(3) show ?thesis
      by (simp add: path_sound_def store_well_formed(1) [OF assms(1)])
  qed
qed

lemma relax_path_sound:
  assumes top: "topology nf offs" and r: "relax nf x y (d, mut) = Inr (d', mut')"
    and wf: "well_formed d" and bnd: "bounded d" and snd: "path_sound offs points d"
  shows "path_sound offs points d'"
  using r
proof (cases rule: relax_elim)
  case same
  then show ?thesis using snd by simp
next
  case (changed wp)
  have m: "M d' = M d" using changed(6) by simp
  have new: "Val wp + 1 < RankMax"
    using changed(5) bounded_cell [OF bnd changed(3)] by simp
  have wp: "Val wp \<le> RankMax"
    by (rule LowestNeighbour_bounded [OF top changed(4) bnd])
  have suc: "unat (Val wp + 1) = Suc (unat (Val wp))"
    using RankMax_succ [OF wp] by simp
  have lt: "Val wp < RankMax"
    using new suc by (simp add: word_less_nat_alt)
  from LowestNeighbour_sample [OF top changed(4)] obtain dx dy where
    off: "(dx, dy) \<in> set offs" and g: "GetValPoint d (x + dx) (y + dy) = Inr wp" by auto
  from GetValPoint_Inr [OF g] lt have "load d (x + dx) (y + dy) = Inr (Val wp)"
    by (auto simp: load_def)
  with snd lt have nb: "hops (M d) offs points (unat (Val wp)) (x + dx, y + dy)"
    by (simp add: path_sound_def)
  have "inb (M d) x y"
    using changed(3) wf by (simp add: well_formed_def in_range_shaped)
  then have here: "hops (M d) offs points (Suc (unat (Val wp))) (x, y)"
    using changed(2) off nb by (rule hops_step)
  show ?thesis
    unfolding path_sound_def
  proof (intro allI impI)
    fix a b v
    assume h: "load d' a b = Inr v \<and> v < RankMax"
    show "hops (M d') offs points (unat v) (a, b)"
    proof (cases "a = x \<and> b = y")
      case True
      with h changed(3,6) have "v = Val wp + 1" by (simp add: load_after_update)
      with True here suc m show ?thesis by simp
    next
      case False
      with h changed(3,6) have "load d a b = Inr v" by (auto simp: load_after_update)
      with h snd m show ?thesis by (simp add: path_sound_def)
    qed
  qed
qed

subsection \<open>No path is shorter than the rank\<close>

lemma relax_converged:
  assumes "relax nf x y (d, False) = Inr (d, False)" and "IsPassable (M d) x y"
  shows "\<exists>wp cur. LowestNeighbour nf d x y = Inr wp \<and> load d x y = Inr cur \<and> cur \<le> Val wp + 1"
  using assms
  by (auto simp: relax_def Let_def not_less split: sum.splits if_splits)

lemma converged_cell:
  assumes "converged nf d" and "in_range (Points d) x y"
  shows "relax nf x y (d, False) = Inr (d, False)"
proof -
  from assms(2) have "nat x < length (Points d)" "nat y < length (Points d ! nat x)"
    and "int (nat x) = x" "int (nat y) = y"
    by (auto simp: in_range_def)
  with sweep_no_mutation(2) [of nf d d "nat x" "nat y"] assms(1) show ?thesis
    by (simp add: converged_def)
qed

lemma hops_inb:
  assumes "hops m offs points n c" and "targets_inb m points"
  shows "inb m (fst c) (snd c)"
  using assms by (induction rule: hops.induct) (auto simp: targets_inb_def)

lemma converged_complete:
  assumes top: "topology nf offs" and wf: "well_formed d" and bnd: "bounded d"
    and zero: "zero_targets points d" and conv: "converged nf d"
    and tin: "targets_inb (M d) points"
    and path: "hops (M d) offs points n c"
  shows "n < unat RankMax \<longrightarrow> (\<exists>v. load d (fst c) (snd c) = Inr v \<and> unat v \<le> n)"
  using path
proof (induction rule: hops.induct)
  case (hops_target x y)
  then show ?case using zero by (auto simp: zero_targets_def)
next
  case (hops_step x y dx dy n)
  show ?case
  proof
    assume n: "Suc n < unat RankMax"
    with hops_step.IH obtain v' where v': "load d (x + dx) (y + dy) = Inr v'" and le: "unat v' \<le> n"
      by auto
    have rng: "in_range (Points d) x y"
      using hops_step.hyps(1) wf by (simp add: well_formed_def in_range_shaped)
    from relax_converged [OF converged_cell [OF conv rng] hops_step.hyps(2)]
    obtain wp cur where wp: "LowestNeighbour nf d x y = Inr wp" and cur: "load d x y = Inr cur"
      and c: "cur \<le> Val wp + 1" by blast
    from v' have rng': "in_range (Points d) (x + dx) (y + dy)"
      by (auto simp: load_def split: if_splits)
    then have "\<not> OOB (M d) (x + dx) (y + dy)"
      using wf by (simp add: well_formed_def grid_contract_def in_range_shaped)
    with v' have "GetValPoint d (x + dx) (y + dy) = Inr \<lparr>X = x + dx, Y = y + dy, Val = v'\<rparr>"
      by (simp add: GetValPoint_def)
    from LowestNeighbour_least [OF top wp bnd hops_step.hyps(3) this]
    have "Val wp \<le> v'" by simp
    then have w: "unat (Val wp) \<le> n" using le by (simp add: word_le_nat_alt)
    have "Val wp \<le> RankMax"
      by (rule LowestNeighbour_bounded [OF top wp bnd])
    from RankMax_succ [OF this] w have "unat (Val wp + 1) \<le> Suc n" by simp
    with c have "unat cur \<le> Suc n" by (simp add: word_le_nat_alt)
    with cur show "\<exists>v. load d (fst (x, y)) (snd (x, y)) = Inr v \<and> unat v \<le> Suc n" by simp
  qed
qed

subsection \<open>The rank field that \<open>Calc\<close> returns\<close>

lemma Calc_rank_field:
  assumes blank: "BlankDMap m = Inr d" and gc: "grid_contract m" and top: "topology nf offs"
    and tin: "targets_inb m points"
  shows "\<exists>r. Calc nf d points = Some (Inr r) \<and> well_formed r \<and> M r = m \<and>
             zero_targets points r \<and> bounded r \<and> path_sound offs points r \<and> converged nf r"
proof -
  have wf: "well_formed d" and m: "M d = m"
    using BlankDMap_Inr(1,2) [OF blank] gc by (simp_all add: well_formed_def)
  let ?P = "\<lambda>t. bounded t \<and> path_sound offs points t"
  have "\<exists>r. Calc nf d points = Some (Inr r) \<and> well_formed r \<and> M r = M d \<and>
             zero_targets points r \<and> ?P r \<and> converged nf r"
  proof (rule Calc_well_formed [where P = ?P, OF top wf])
    show "targets_inb (M d) points" using tin m by simp
    show "?P d" using BlankDMap_Inr(3) [OF blank] blank_path_sound [OF blank] by simp
  next
    fix a b t t'
    assume "(a, b) \<in> set points" and "?P t" and "store t a b 0 = Inr t'"
    then show "?P t'"
      using store_bounded [of t a b 0 t'] store_path_sound [of t a b t' points offs] by simp
  next
    fix a b t mut t' mut'
    assume "well_formed t" and "zero_targets points t" and "?P t"
      and "relax nf a b (t, mut) = Inr (t', mut')"
    then show "?P t'"
      using relax_bounded [of nf a b t mut t' mut']
        relax_path_sound [OF top, of a b t mut t' mut' points] by simp
  qed
  then show ?thesis using m by auto
qed

lemma rank_is_distance:
  assumes top: "topology nf offs" and wf: "well_formed r" and bnd: "bounded r"
    and zero: "zero_targets points r" and conv: "converged nf r"
    and tin: "targets_inb (M r) points" and snd: "path_sound offs points r"
    and inb: "inb (M r) x y"
  shows "(reachable (M r) offs points (x, y) \<and>
          hop_distance (M r) offs points (x, y) < unat RankMax \<longrightarrow>
            (\<exists>v. load r x y = Inr v \<and> unat v = hop_distance (M r) offs points (x, y))) \<and>
         (\<not> (reachable (M r) offs points (x, y) \<and>
             hop_distance (M r) offs points (x, y) < unat RankMax) \<longrightarrow>
            load r x y = Inr RankMax)"
proof -
  let ?H = "\<lambda>n. hops (M r) offs points n (x, y)"
  have rng: "in_range (Points r) x y"
    using inb wf by (simp add: well_formed_def in_range_shaped)
  then obtain v where v: "load r x y = Inr v" by (simp add: load_def)
  have vmax: "v \<le> RankMax"
    using bounded_cell [OF bnd rng] v rng by (simp add: load_def)
  have lower: "unat v \<le> n" if "?H n" "n < unat RankMax" for n
    using converged_complete [OF top wf bnd zero conv tin that(1)] that(2) v by simp
  show ?thesis
  proof (cases "v < RankMax")
    case True
    then have here: "?H (unat v)" using snd v by (simp add: path_sound_def)
    have "unat v \<le> n" if "?H n" for n
    proof (cases "n < unat RankMax")
      case True
      then show ?thesis by (rule lower [OF that])
    next
      case False
      then show ?thesis using \<open>v < RankMax\<close> by (simp add: word_less_nat_alt)
    qed
    with here have "hop_distance (M r) offs points (x, y) = unat v"
      unfolding hop_distance_def by (intro Least_equality)
    then show ?thesis
      using v True here by (auto simp: reachable_def word_less_nat_alt)
  next
    case False
    with vmax have veq: "v = RankMax" by simp
    have far: "\<not> hop_distance (M r) offs points (x, y) < unat RankMax"
      if "reachable (M r) offs points (x, y)"
    proof
      assume lt: "hop_distance (M r) offs points (x, y) < unat RankMax"
      from that have "?H (hop_distance (M r) offs points (x, y))"
        unfolding hop_distance_def reachable_def by (rule LeastI_ex)
      from lower [OF this lt] lt veq show False by simp
    qed
    then show ?thesis using v veq by auto
  qed
qed

subsection \<open>The corridor\<close>

lemma corridor_blank: "BlankDMap corridor = Inr blank_corridor"
  by (simp add: BlankDMap_def corridor_def open_grid_def blank_corridor_def)

lemma open_grid_contract: "grid_contract (open_grid w h)"
  by (auto simp: grid_contract_def inb_def open_grid_def)

lemma corridor_path:
  "k \<le> 65526 \<Longrightarrow> hops corridor manhattan_offsets [(0, 0)] k (int k, 0)"
proof (induction k)
  case 0
  then show ?case by (simp add: hops_target)
next
  case (Suc k)
  have "hops corridor manhattan_offsets [(0, 0)] (Suc k) (int (Suc k), 0)"
  proof (rule hops_step [where dx = "- 1" and dy = 0])
    show "inb corridor (int (Suc k)) 0"
      using Suc.prems by (simp add: inb_def corridor_def open_grid_def)
    show "IsPassable corridor (int (Suc k)) 0"
      by (simp add: corridor_def open_grid_def)
    show "(- 1, 0) \<in> set manhattan_offsets"
      by (simp add: manhattan_offsets_def)
    show "hops corridor manhattan_offsets [(0, 0)] k (int (Suc k) + - 1, 0 + 0)"
      using Suc by simp
  qed
  then show ?case .
qed

lemma manhattan_lower:
  "hops m manhattan_offsets [(0, 0)] n c \<Longrightarrow> fst c \<le> int n"
  by (induction rule: hops.induct) (auto simp: manhattan_offsets_def)

subsection \<open>Claim on the rank field\<close>

text \<open>
  C1, as the spec states it, at the corridor with the target at its first cell: \<open>Calc\<close>
  returns; the last cell is passable and 65526 hops from the target, the only path being
  the corridor itself; yet it holds \<open>RankMax\<close>, which is 65525.
\<close>

theorem Calc_hop_distance_counterexample:
  "BlankDMap corridor = Inr blank_corridor \<and>
   (\<exists>r. Calc ManhattanNeighbours blank_corridor [(0, 0)] = Some (Inr r) \<and>
      load r 65526 0 = Inr RankMax) \<and>
   inb corridor 65526 0 \<and> IsPassable corridor 65526 0 \<and>
   reachable corridor manhattan_offsets [(0, 0)] (65526, 0) \<and>
   hop_distance corridor manhattan_offsets [(0, 0)] (65526, 0) = 65526 \<and>
   unat RankMax = 65525"
proof -
  let ?H = "\<lambda>n. hops corridor manhattan_offsets [(0, 0)] n (65526, 0)"
  have top: "topology ManhattanNeighbours manhattan_offsets" by (simp add: topology_def)
  have gc: "grid_contract corridor" by (simp add: corridor_def open_grid_contract)
  have tin: "targets_inb corridor [(0, 0)]"
    by (simp add: targets_inb_def inb_def corridor_def open_grid_def)
  have inb: "inb corridor 65526 0" and pass: "IsPassable corridor 65526 0"
    by (simp_all add: inb_def corridor_def open_grid_def)
  have rm: "unat RankMax = 65525" by (simp add: RankMax_def)
  have path: "?H 65526" using corridor_path [of 65526] by simp
  have "65526 \<le> n" if "?H n" for n
    using manhattan_lower [OF that] by simp
  with path have dist: "hop_distance corridor manhattan_offsets [(0, 0)] (65526, 0) = 65526"
    unfolding hop_distance_def by (intro Least_equality)
  from Calc_rank_field [OF corridor_blank gc top tin] obtain r where
    calc: "Calc ManhattanNeighbours blank_corridor [(0, 0)] = Some (Inr r)"
    and r: "well_formed r" "M r = corridor" "zero_targets [(0, 0)] r" "bounded r"
      "path_sound manhattan_offsets [(0, 0)] r" "converged ManhattanNeighbours r"
    by blast
  from rank_is_distance [OF top r(1,4,3,6) _ r(5), of 65526 0] r(2) tin inb dist rm
  have "load r 65526 0 = Inr RankMax" by simp
  with calc corridor_blank inb pass path dist rm show ?thesis
    by (auto simp: reachable_def)
qed

text \<open>
  C1, amended. For a grid that keeps its contract, either reference topology and in-bounds
  targets, \<open>Calc\<close> on the blank map returns, and then every passable cell whose nearest
  target is fewer than \<open>RankMax\<close> hops away holds that number of hops; every other
  passable cell (no path, or no path shorter than \<open>RankMax\<close>) holds \<open>RankMax\<close>. A path
  moves by the topology's unit hops, leaves passable cells only, and ends at a target,
  passable or not.
\<close>

theorem Calc_hop_distance:
  assumes "BlankDMap m = Inr d" and "grid_contract m" and "topology nf offs"
    and "targets_inb m points"
  shows "\<exists>r. Calc nf d points = Some (Inr r) \<and>
           (\<forall>x y. inb m x y \<and> IsPassable m x y \<longrightarrow>
              (reachable m offs points (x, y) \<and> hop_distance m offs points (x, y) < unat RankMax \<longrightarrow>
                 (\<exists>v. load r x y = Inr v \<and> unat v = hop_distance m offs points (x, y))) \<and>
              (\<not> (reachable m offs points (x, y) \<and> hop_distance m offs points (x, y) < unat RankMax) \<longrightarrow>
                 load r x y = Inr RankMax))"
proof -
  from Calc_rank_field [OF assms] obtain r where
    calc: "Calc nf d points = Some (Inr r)"
    and r: "well_formed r" "M r = m" "zero_targets points r" "bounded r"
      "path_sound offs points r" "converged nf r"
    by blast
  have "(reachable m offs points (x, y) \<and> hop_distance m offs points (x, y) < unat RankMax \<longrightarrow>
           (\<exists>v. load r x y = Inr v \<and> unat v = hop_distance m offs points (x, y))) \<and>
        (\<not> (reachable m offs points (x, y) \<and> hop_distance m offs points (x, y) < unat RankMax) \<longrightarrow>
           load r x y = Inr RankMax)"
    if "inb m x y" for x y
    using rank_is_distance [OF assms(3) r(1,4,3,6) _ r(5), of x y] r(2) assms(4) that by simp
  with calc show ?thesis by blast
qed

theorem Calc_hop_distance_witness:
  "BlankDMap (open_grid 3 3) = Inr blank_3x3 \<and> grid_contract (open_grid 3 3) \<and>
   topology ManhattanNeighbours manhattan_offsets \<and> targets_inb (open_grid 3 3) [(1, 1)] \<and>
   inb (open_grid 3 3) 0 0 \<and> IsPassable (open_grid 3 3) 0 0 \<and>
   reachable (open_grid 3 3) manhattan_offsets [(1, 1)] (0, 0) \<and>
   hop_distance (open_grid 3 3) manhattan_offsets [(1, 1)] (0, 0) = 2 \<and>
   (\<exists>r. Calc ManhattanNeighbours blank_3x3 [(1, 1)] = Some (Inr r) \<and> load r 0 0 = Inr 2)"
proof -
  let ?m = "open_grid 3 3" and ?ts = "[(1, 1) :: int \<times> int]"
  have top: "topology ManhattanNeighbours manhattan_offsets" by (simp add: topology_def)
  have tin: "targets_inb ?m ?ts" by (simp add: targets_inb_def inb_def open_grid_def)
  have inb: "inb ?m 0 0" and pass: "IsPassable ?m 0 0"
    by (simp_all add: inb_def open_grid_def)
  have "hops ?m manhattan_offsets ?ts 0 (1, 1)" by (simp add: hops_target)
  then have "hops ?m manhattan_offsets ?ts 1 (1, 0)"
    using hops_step [of ?m 1 0 0 1 manhattan_offsets ?ts 0]
    by (simp add: inb_def open_grid_def manhattan_offsets_def)
  then have two: "hops ?m manhattan_offsets ?ts 2 (0, 0)"
    using hops_step [of ?m 0 0 1 0 manhattan_offsets ?ts 1]
    by (simp add: inb_def open_grid_def manhattan_offsets_def numeral_2_eq_2)
  then have reach: "reachable ?m manhattan_offsets ?ts (0, 0)" by (auto simp: reachable_def)
  have "hop_distance ?m manhattan_offsets ?ts (0, 0) \<le> 2"
    unfolding hop_distance_def using two by (rule Least_le)
  then have near: "hop_distance ?m manhattan_offsets ?ts (0, 0) < unat RankMax"
    by (simp add: RankMax_def)
  from Calc_hop_distance [OF example_blank open_grid_contract top tin] obtain r where
    calc: "Calc ManhattanNeighbours blank_3x3 ?ts = Some (Inr r)"
    and cell: "\<exists>v. load r 0 0 = Inr v \<and> unat v = hop_distance ?m manhattan_offsets ?ts (0, 0)"
    using inb pass reach near by blast
  from calc scenario_manhattan have "Points r = [[2, 1, 2], [1, 0, 1], [2, 1, 2]]" by simp
  then have "load r 0 0 = Inr 2" by (simp add: load_def in_range_def)
  with cell have "hop_distance ?m manhattan_offsets ?ts (0, 0) = 2" by auto
  with calc \<open>load r 0 0 = Inr 2\<close> example_blank open_grid_contract top tin inb pass reach
  show ?thesis by blast
qed

subsection \<open>Rendering\<close>

lemma decimal_length: "n < 10 ^ Suc k \<Longrightarrow> length (decimal n) \<le> Suc k"
proof (induction k arbitrary: n)
  case 0
  then show ?case by (subst decimal.simps) simp
next
  case (Suc k)
  show ?case
  proof (cases "n < 10")
    case True
    then show ?thesis by (subst decimal.simps) simp
  next
    case False
    have "n div 10 < 10 ^ Suc k" using Suc.prems by (simp add: less_mult_imp_div_less)
    from Suc.IH [OF this] False show ?thesis by (subst decimal.simps) simp
  qed
qed

lemma decimal_Rank: "length (decimal (unat (v :: Rank))) \<le> 5"
proof -
  have "unat v < 2 ^ 16" using unsigned_less [of v, where 'a = nat] by simp
  then have "unat v < 10 ^ Suc 4" by simp
  from decimal_length [OF this] show ?thesis by simp
qed

lemma decimal_nonempty: "decimal n \<noteq> []"
  by (subst decimal.simps) simp

lemma decimal_digits: "c \<in> set (decimal n) \<Longrightarrow> c \<in> set ''0123456789''"
proof (induction n rule: decimal.induct)
  case (1 n)
  have d: "''0123456789'' ! k \<in> set ''0123456789''" if "k < 10" for k :: nat
    by (rule nth_mem) (use that in simp)
  show ?case
  proof (cases "n < 10")
    case True
    with "1.prems" d [of n] show ?thesis by (subst (asm) decimal.simps) simp
  next
    case False
    with "1.prems" have "c \<in> set (decimal (n div 10)) \<or> c = ''0123456789'' ! (n mod 10)"
      by (subst (asm) decimal.simps) auto
    then show ?thesis using "1.IH" False d [of "n mod 10"] by auto
  qed
qed

lemma foldl_append_concat: "foldl (\<lambda>b v. b @ f v) buf xs = buf @ concat (map f xs)"
  by (induction xs arbitrary: buf) simp_all

lemma String_concat:
  "String d =
     concat (map (\<lambda>row. concat (map (\<lambda>v. Sprintf_6d v @ '', '') row) @ [CHR 0x0A]) (Points d))"
proof -
  have "foldl (\<lambda>buf row. foldl (\<lambda>b v. b @ Sprintf_6d v @ '', '') buf row @ [CHR 0x0A]) acc rows =
        acc @ concat (map (\<lambda>row. concat (map (\<lambda>v. Sprintf_6d v @ '', '') row) @ [CHR 0x0A]) rows)"
    for acc rows
    by (induction rows arbitrary: acc) (simp_all add: foldl_append_concat)
  then show ?thesis by (simp add: String_def)
qed

lemma Sprintf_6d_length: "length (Sprintf_6d v) = 6"
  using decimal_Rank [of v] by (simp add: Sprintf_6d_def Let_def)

lemma decimal_zero: "decimal 0 = ''0''"
  by (subst decimal.simps) simp

text \<open>
  C9, as the spec states it, at the 1 by 1 map with rank 0: the dump is five spaces, the
  digit, a comma and a space, then a newline. The cell is not the digit followed by
  spaces, whatever the width.
\<close>

theorem String_layout_counterexample:
  "String \<lparr>Points = [[0]], M = open_grid 1 1\<rparr> = ''     0, '' @ [CHR 0x0A] \<and>
   Sprintf_6d 0 = ''     0'' \<and>
   (\<forall>w. Sprintf_6d 0 \<noteq> right_padded w (decimal (unat (0 :: Rank))))"
proof -
  have s: "Sprintf_6d 0 = ''     0''"
    by (simp add: Sprintf_6d_def decimal_zero numeral_eq_Suc)
  then have "String \<lparr>Points = [[0]], M = open_grid 1 1\<rparr> = ''     0, '' @ [CHR 0x0A]"
    by (simp add: String_def)
  moreover have "Sprintf_6d 0 \<noteq> right_padded w (decimal (unat (0 :: Rank)))" for w
    by (simp add: s right_padded_def decimal_zero)
  ultimately show ?thesis using s by blast
qed

text \<open>
  C9, amended. \<open>String\<close> writes the rows of the rank storage in order, every row ended
  by a newline; in a row, every rank is written as its decimal digits, padded with spaces
  on the left to the fixed width 6 (at least one space, since a rank has at most five
  digits), and followed by a comma and a space.
\<close>

theorem String_layout:
  "String d =
     concat (map (\<lambda>row. concat (map (\<lambda>v. Sprintf_6d v @ '', '') row) @ [CHR 0x0A]) (Points d)) \<and>
   length (Sprintf_6d v) = 6 \<and>
   Sprintf_6d v = replicate (6 - length (decimal (unat v))) CHR '' '' @ decimal (unat v) \<and>
   0 < length (decimal (unat v)) \<and> length (decimal (unat v)) \<le> 5 \<and>
   set (decimal (unat v)) \<subseteq> set ''0123456789'' \<and>
   length (String d) = sum_list (map (\<lambda>row. 8 * length row + 1) (Points d))"
proof -
  have len: "length (concat (map (\<lambda>v. Sprintf_6d v @ '', '') row)) = 8 * length row" for row
    by (induction row) (simp_all add: Sprintf_6d_length)
  have "length (concat (map (\<lambda>row. concat (map (\<lambda>v. Sprintf_6d v @ '', '') row) @ [CHR 0x0A]) rows)) =
        sum_list (map (\<lambda>row. 8 * length row + 1) rows)" for rows
    by (induction rows) (simp_all add: len)
  then have "length (String d) = sum_list (map (\<lambda>row. 8 * length row + 1) (Points d))"
    by (simp add: String_concat)
  moreover have "set (decimal (unat v)) \<subseteq> set ''0123456789''"
    using decimal_digits by blast
  moreover have "Sprintf_6d v = replicate (6 - length (decimal (unat v))) CHR '' '' @ decimal (unat v)"
    by (simp add: Sprintf_6d_def Let_def)
  ultimately show ?thesis
    using String_concat [of d] Sprintf_6d_length [of v] decimal_Rank [of v] decimal_nonempty [of "unat v"]
    by simp
qed

end
